theory Spec2Isabelle
  imports Complex_Main "HOL-Library.Multiset" "HOL-Library.Product_Lexorder"
begin

section \<open>Data model\<close>

text \<open>
  A \<open>Process\<close> object of the source. Python integers are unbounded, so every numeric
  field is an \<open>int\<close>. Objects are mutable; a list of objects is modelled by the list of
  their current field values, and an object is identified by its position in that list
  (the lists built by the callers hold pairwise distinct objects, one fresh copy per
  element).
\<close>

record process =
  process_id :: string
  arrival_time :: int
  burst_time :: int
  priority :: int
  remaining_time :: int
  finish_time :: int
  turnaround_time :: int
  waiting_time :: int

text \<open>The constructor \<open>Process.__init__\<close>.\<close>

definition Process :: "string \<Rightarrow> int \<Rightarrow> int \<Rightarrow> int \<Rightarrow> process" where
  "Process pid arrival burst prio =
     \<lparr>process_id = pid, arrival_time = arrival, burst_time = burst, priority = prio,
      remaining_time = burst, finish_time = 0, turnaround_time = 0, waiting_time = 0\<rparr>"

text \<open>\<open>Process.copy\<close>: a fresh object; only \<open>remaining_time\<close> is carried over besides
  the four constructor arguments.\<close>

definition copy :: "process \<Rightarrow> process" where
  "copy self = (Process (process_id self) (arrival_time self) (burst_time self) (priority self))
                 \<lparr>remaining_time := remaining_time self\<rparr>"

text \<open>The dictionary returned by \<open>Process.to_dict\<close> (it has no \<open>remaining_time\<close> key).\<close>

record process_dict =
  dict_process_id :: string
  dict_arrival_time :: int
  dict_burst_time :: int
  dict_priority :: int
  dict_finish_time :: int
  dict_turnaround_time :: int
  dict_waiting_time :: int

definition to_dict :: "process \<Rightarrow> process_dict" where
  "to_dict self =
     \<lparr>dict_process_id = process_id self, dict_arrival_time = arrival_time self,
      dict_burst_time = burst_time self, dict_priority = priority self,
      dict_finish_time = finish_time self, dict_turnaround_time = turnaround_time self,
      dict_waiting_time = waiting_time self\<rparr>"

text \<open>A \<open>GanttEntry\<close>; its \<open>to_dict\<close> has the same three fields, so one record serves
  for the object and for its dictionary.\<close>

record gantt_entry =
  entry_id :: string
  start_time :: int
  end_time :: int

definition GanttEntry :: "string \<Rightarrow> int \<Rightarrow> int \<Rightarrow> gantt_entry" where
  "GanttEntry pid st en = \<lparr>entry_id = pid, start_time = st, end_time = en\<rparr>"

text \<open>The local variables every policy keeps while it builds the time line.\<close>

record timeline =
  gantt :: "gantt_entry list"
  current_time :: int
  total_idle_time :: int

definition timeline_init :: timeline where
  "timeline_init = \<lparr>gantt = [], current_time = 0, total_idle_time = 0\<rparr>"

text \<open>Exceptions the policies and the aggregation of the metrics can raise.\<close>

datatype error = IndexError | ValueError | ZeroDivisionError | OverflowError

section \<open>Metrics aggregation\<close>

text \<open>
  Python's true division of two integers yields the quotient rounded to the nearest
  double, and raises \<open>OverflowError\<close> when that double would be \<open>2 ^ 1024\<close> or more
  in magnitude, which is when the exact quotient is at least \<open>2 ^ 1024 - 2 ^ 970\<close>
  (the midpoint between the largest double and \<open>2 ^ 1024\<close>, which rounds up). A zero
  divisor raises \<open>ZeroDivisionError\<close>. The value is kept as the exact quotient: the
  rounding to a double is not modelled.
\<close>

definition float_overflow :: rat where
  "float_overflow = 2 ^ 1024 - 2 ^ 970"

definition true_div :: "int \<Rightarrow> int \<Rightarrow> error + rat" where
  "true_div a b =
     (if b = 0 then Inl ZeroDivisionError
      else if float_overflow \<le> \<bar>of_int a / of_int b\<bar> then Inl OverflowError
      else Inr (of_int a / of_int b))"

text \<open>
  The dictionary built by \<open>get_results_dict\<close>. The three derived figures are kept as
  exact rationals, the values of the local variables \<open>avg_turnaround\<close>,
  \<open>avg_waiting\<close> and \<open>cpu_utilization\<close>: the multiplication by 100 and the final
  \<open>round\<close> work on doubles and raise nothing, and their rounding is not modelled. The
  three quotients are computed in this order, and the first that raises ends the call.
\<close>

record results =
  res_processes :: "process_dict list"
  res_gantt :: "gantt_entry list"
  res_total_time :: int
  res_total_idle_time :: int
  res_avg_turnaround :: rat
  res_avg_waiting :: rat
  res_cpu_utilization :: rat

definition get_results_dict ::
  "process list \<Rightarrow> gantt_entry list \<Rightarrow> int \<Rightarrow> int \<Rightarrow> error + results" where
  "get_results_dict ps g total_time idle =
     (let total_turnaround = sum_list (map turnaround_time ps);
          total_waiting = sum_list (map waiting_time ps)
      in case (if ps \<noteq> [] then true_div total_turnaround (int (length ps)) else Inr 0) of
           Inl e \<Rightarrow> Inl e
         | Inr avg_turnaround \<Rightarrow>
        (case (if ps \<noteq> [] then true_div total_waiting (int (length ps)) else Inr 0) of
           Inl e \<Rightarrow> Inl e
         | Inr avg_waiting \<Rightarrow>
        (case (if total_time > 0
               then map_sum id (\<lambda>q. q * 100) (true_div (total_time - idle) total_time)
               else Inr 0) of
           Inl e \<Rightarrow> Inl e
         | Inr cpu_utilization \<Rightarrow>
             Inr \<lparr>res_processes = map to_dict ps, res_gantt = g, res_total_time = total_time,
                  res_total_idle_time = idle, res_avg_turnaround = avg_turnaround,
                  res_avg_waiting = avg_waiting, res_cpu_utilization = cpu_utilization\<rparr>)))"

section \<open>First-Come, First-Served\<close>

text \<open>
  One pass of the \<open>for\<close> loop of \<open>schedule_fcfs\<close>: an idle entry if the clock is behind
  the arrival, then the run entry, then the three fields written into the object.
\<close>

definition fcfs_body :: "process \<Rightarrow> timeline \<Rightarrow> process \<times> timeline" where
  "fcfs_body p t =
     (let t1 = (if current_time t < arrival_time p
                then t\<lparr>gantt := gantt t @ [GanttEntry ''IDLE'' (current_time t) (arrival_time p)],
                       total_idle_time := total_idle_time t + (arrival_time p - current_time t),
                       current_time := arrival_time p\<rparr>
                else t);
          t2 = t1\<lparr>gantt := gantt t1 @ [GanttEntry (process_id p) (current_time t1)
                                          (current_time t1 + burst_time p)],
                  current_time := current_time t1 + burst_time p\<rparr>;
          p1 = p\<lparr>finish_time := current_time t2\<rparr>;
          p2 = p1\<lparr>turnaround_time := finish_time p1 - arrival_time p1\<rparr>;
          p3 = p2\<lparr>waiting_time := turnaround_time p2 - burst_time p2\<rparr>
      in (p3, t2))"

fun fcfs_loop :: "process list \<Rightarrow> timeline \<Rightarrow> process list \<times> timeline" where
  "fcfs_loop [] t = ([], t)"
| "fcfs_loop (p # ps) t =
     (case fcfs_body p t of (p', t') \<Rightarrow>
        (case fcfs_loop ps t' of (ps', t'') \<Rightarrow> (p' # ps', t'')))"

text \<open>
  \<open>schedule_fcfs\<close> sorts the list it is given in place (Python's sort is stable, as
  \<open>sort_key\<close> is) and writes into its objects. The first component of the value is the
  caller's list as it is after the call, the second the returned dictionary, or the
  exception \<open>get_results_dict\<close> raised.
\<close>

definition schedule_fcfs :: "process list \<Rightarrow> process list \<times> (error + results)" where
  "schedule_fcfs processes =
     (case fcfs_loop (sort_key arrival_time processes) timeline_init of
        (ps', t) \<Rightarrow> (ps', get_results_dict ps' (gantt t) (current_time t) (total_idle_time t)))"

section \<open>Shortest Job First and Priority (non-preemptive)\<close>

text \<open>
  \<open>schedule_sjf\<close> and \<open>schedule_priority\<close> are the same text in the source but for
  the key handed to \<open>min\<close>. Their state: the list they were given (whose objects they
  write into), the list \<open>completed\<close> (objects, here their positions) and the time line.
\<close>

record np_state = timeline +
  processes :: "process list"
  completed :: "nat list"

definition np_init :: "process list \<Rightarrow> np_state" where
  "np_init ps = \<lparr>gantt = [], current_time = 0, total_idle_time = 0,
                 processes = ps, completed = []\<rparr>"

definition sjf_key :: "process \<Rightarrow> int \<times> int" where
  "sjf_key p = (burst_time p, arrival_time p)"

definition priority_key :: "process \<Rightarrow> int \<times> int" where
  "priority_key p = (priority p, arrival_time p)"

text \<open>The positions of the objects in the list comprehension \<open>available\<close>.\<close>

definition available :: "np_state \<Rightarrow> nat list" where
  "available s =
     filter (\<lambda>i. arrival_time (processes s ! i) \<le> current_time s \<and> i \<notin> set (completed s))
       [0..<length (processes s)]"

text \<open>The arrival times the generator handed to \<open>min\<close> in the idle branch yields.\<close>

definition pending_arrivals :: "np_state \<Rightarrow> int list" where
  "pending_arrivals s =
     map (\<lambda>i. arrival_time (processes s ! i))
       (filter (\<lambda>i. i \<notin> set (completed s)) [0..<length (processes s)])"

text \<open>
  One pass of the \<open>while\<close> loop. \<open>min\<close> of an empty generator raises \<open>ValueError\<close>;
  \<open>min\<close> with a key returns the first minimal element, as \<open>arg_min_list\<close> does, and
  compares the key tuples lexicographically.
\<close>

definition np_body :: "(process \<Rightarrow> int \<times> int) \<Rightarrow> np_state \<Rightarrow> error + np_state" where
  "np_body key s =
     (if available s = [] then
        (if pending_arrivals s = [] then Inl ValueError
         else
           (let next_arrival = min_list (pending_arrivals s)
            in Inr (s\<lparr>gantt := gantt s @ [GanttEntry ''IDLE'' (current_time s) next_arrival],
                      total_idle_time := total_idle_time s + (next_arrival - current_time s),
                      current_time := next_arrival\<rparr>)))
      else
        (let selected = arg_min_list (\<lambda>i. key (processes s ! i)) (available s);
             p = processes s ! selected;
             now = current_time s + burst_time p;
             p1 = p\<lparr>finish_time := now\<rparr>;
             p2 = p1\<lparr>turnaround_time := finish_time p1 - arrival_time p1\<rparr>;
             p3 = p2\<lparr>waiting_time := turnaround_time p2 - burst_time p2\<rparr>
         in Inr (s\<lparr>gantt := gantt s @ [GanttEntry (process_id p) (current_time s)
                                            (current_time s + burst_time p)],
                   current_time := now,
                   processes := (processes s)[selected := p3],
                   completed := completed s @ [selected]\<rparr>)))"

text \<open>
  The \<open>while\<close> loop with a bound on the number of passes: \<open>None\<close> when the bound is
  used up before the loop condition fails.
\<close>

fun np_loop :: "(process \<Rightarrow> int \<times> int) \<Rightarrow> nat \<Rightarrow> np_state \<Rightarrow> (error + np_state) option" where
  "np_loop key 0 s =
     (if length (completed s) < length (processes s) then None else Some (Inr s))"
| "np_loop key (Suc fuel) s =
     (if length (completed s) < length (processes s)
      then (case np_body key s of Inl e \<Rightarrow> Some (Inl e) | Inr s' \<Rightarrow> np_loop key fuel s')
      else Some (Inr s))"

definition np_return ::
  "(error + np_state) option \<Rightarrow> (error + process list \<times> (error + results)) option" where
  "np_return out =
     map_option (map_sum id (\<lambda>s. (processes s,
        get_results_dict (processes s) (gantt s) (current_time s) (total_idle_time s)))) out"

text \<open>
  Both policies write into the objects of the list they are given. A value is \<open>None\<close>
  when the bound was used up, \<open>Inl\<close> of the exception the loop raised, or, when the
  loop ended, the caller's list as it is after the call together with the returned
  dictionary or the exception \<open>get_results_dict\<close> raised.
\<close>

definition schedule_sjf ::
  "nat \<Rightarrow> process list \<Rightarrow> (error + process list \<times> (error + results)) option" where
  "schedule_sjf fuel ps = np_return (np_loop sjf_key fuel (np_init ps))"

definition schedule_priority ::
  "nat \<Rightarrow> process list \<Rightarrow> (error + process list \<times> (error + results)) option" where
  "schedule_priority fuel ps = np_return (np_loop priority_key fuel (np_init ps))"

section \<open>Round Robin\<close>

text \<open>
  The state of \<open>schedule_rr\<close>: its private sorted copy, the deque of objects of that
  copy (here their positions in it), the counter \<open>completed\<close>, the index of the next
  object not yet enqueued, and the time line.
\<close>

record rr_state = timeline +
  processes_copy :: "process list"
  ready_queue :: "nat list"
  completed_count :: nat
  process_index :: nat

text \<open>The inner \<open>while\<close> loop that admits the objects that have arrived.\<close>

function admit :: "rr_state \<Rightarrow> rr_state" where
  "admit s =
     (if process_index s < length (processes_copy s)
         \<and> arrival_time (processes_copy s ! process_index s) \<le> current_time s
      then admit (s\<lparr>ready_queue := ready_queue s @ [process_index s],
                     process_index := process_index s + 1\<rparr>)
      else s)"
  by pat_completeness auto
termination
  by (relation "measure (\<lambda>s. length (processes_copy s) - process_index s)") auto

declare admit.simps [simp del]

text \<open>The state before the outer loop: the copy, sorted, and the single \<open>if\<close> that
  enqueues the first object when it has arrived at time 0.\<close>

definition rr_init :: "process list \<Rightarrow> rr_state" where
  "rr_init ps =
     (let pc = sort_key arrival_time (map copy ps);
          s = \<lparr>gantt = [], current_time = 0, total_idle_time = 0,
               processes_copy = pc, ready_queue = [], completed_count = 0, process_index = 0\<rparr>
      in if process_index s < length (processes_copy s)
            \<and> arrival_time (processes_copy s ! process_index s) \<le> current_time s
         then s\<lparr>ready_queue := ready_queue s @ [process_index s],
                process_index := process_index s + 1\<rparr>
         else s)"

text \<open>The idle branch at the head of the loop body; the indexing raises \<open>IndexError\<close>
  out of range.\<close>

definition rr_idle :: "rr_state \<Rightarrow> error + rr_state" where
  "rr_idle s =
     (if ready_queue s = [] then
        (if process_index s < length (processes_copy s) then
           (let next_arrival = arrival_time (processes_copy s ! process_index s)
            in Inr (s\<lparr>gantt := gantt s @ [GanttEntry ''IDLE'' (current_time s) next_arrival],
                      total_idle_time := total_idle_time s + (next_arrival - current_time s),
                      current_time := next_arrival,
                      ready_queue := ready_queue s @ [process_index s],
                      process_index := process_index s + 1\<rparr>))
         else Inl IndexError)
      else Inr s)"

text \<open>The rest of the body: \<open>popleft\<close> (which raises \<open>IndexError\<close> on an empty deque),
  the run, the admission of arrivals, and the re-append or the completion.\<close>

definition rr_run :: "int \<Rightarrow> rr_state \<Rightarrow> error + rr_state" where
  "rr_run time_quantum s =
     (case ready_queue s of
        [] \<Rightarrow> Inl IndexError
      | current # rest \<Rightarrow>
          (let p = processes_copy s ! current;
               execute_time = min time_quantum (remaining_time p);
               p1 = p\<lparr>remaining_time := remaining_time p - execute_time\<rparr>;
               s1 = admit (s\<lparr>ready_queue := rest,
                             gantt := gantt s @ [GanttEntry (process_id p) (current_time s)
                                                   (current_time s + execute_time)],
                             current_time := current_time s + execute_time,
                             processes_copy := (processes_copy s)[current := p1]\<rparr>)
           in if remaining_time p1 > 0
              then Inr (s1\<lparr>ready_queue := ready_queue s1 @ [current]\<rparr>)
              else
                (let p2 = p1\<lparr>finish_time := current_time s1\<rparr>;
                     p3 = p2\<lparr>turnaround_time := finish_time p2 - arrival_time p2\<rparr>;
                     p4 = p3\<lparr>waiting_time := turnaround_time p3 - burst_time p3\<rparr>
                 in Inr (s1\<lparr>processes_copy := (processes_copy s1)[current := p4],
                            completed_count := completed_count s1 + 1\<rparr>))))"

definition rr_body :: "int \<Rightarrow> rr_state \<Rightarrow> error + rr_state" where
  "rr_body time_quantum s =
     (case rr_idle s of Inl e \<Rightarrow> Inl e | Inr s' \<Rightarrow> rr_run time_quantum s')"

text \<open>The outer loop, with a bound on the number of passes.\<close>

fun rr_loop :: "int \<Rightarrow> nat \<Rightarrow> rr_state \<Rightarrow> (error + rr_state) option" where
  "rr_loop time_quantum 0 s =
     (if completed_count s < length (processes_copy s) then None else Some (Inr s))"
| "rr_loop time_quantum (Suc fuel) s =
     (if completed_count s < length (processes_copy s)
      then (case rr_body time_quantum s of
              Inl e \<Rightarrow> Some (Inl e)
            | Inr s' \<Rightarrow> rr_loop time_quantum fuel s')
      else Some (Inr s))"

text \<open>
  \<open>schedule_rr\<close> works on its copy: the caller's list after the call (the first
  component) is the list it was given.
\<close>

definition schedule_rr ::
  "nat \<Rightarrow> process list \<Rightarrow> int \<Rightarrow> (error + process list \<times> (error + results)) option" where
  "schedule_rr fuel ps time_quantum =
     map_option (map_sum id (\<lambda>s. (ps,
        get_results_dict (processes_copy s) (gantt s) (current_time s) (total_idle_time s))))
       (rr_loop time_quantum fuel (rr_init ps))"

section \<open>The request handler\<close>

text \<open>
  \<open>api_schedule\<close>, from the decoded request on: the process descriptors (identifier,
  arrival, burst, priority, all four present), the algorithm name and the quantum. It
  answers with the result dictionary, with a status-400 error message, or, when the
  policy raised, with status 500 and the text of the exception. Every policy is handed
  fresh copies; the quantum is handed to \<open>schedule_rr\<close> as it came.
\<close>

datatype response = Success results | Error400 string | Error500 error

definition respond ::
  "(error + process list \<times> (error + results)) option \<Rightarrow> response option" where
  "respond out = map_option (case_sum Error500 (\<lambda>(ps, res). case_sum Error500 Success res)) out"

definition api_schedule ::
  "nat \<Rightarrow> (string \<times> int \<times> int \<times> int) list \<Rightarrow> string \<Rightarrow> int \<Rightarrow> response option" where
  "api_schedule fuel processes_data algorithm time_quantum =
     (let procs = map (\<lambda>(pid, arrival, burst, prio). Process pid arrival burst prio) processes_data
      in if procs = [] then Some (Error400 ''No processes provided'')
         else if algorithm = ''fcfs''
              then Some (case_sum Error500 Success (snd (schedule_fcfs (map copy procs))))
         else if algorithm = ''sjf'' then respond (schedule_sjf fuel (map copy procs))
         else if algorithm = ''rr'' then respond (schedule_rr fuel (map copy procs) time_quantum)
         else if algorithm = ''priority'' then respond (schedule_priority fuel (map copy procs))
         else Some (Error400 ''Invalid algorithm''))"

section \<open>Properties of schedules\<close>

text \<open>
  A Gantt sequence that runs from time \<open>t\<close> to time \<open>t'\<close> without a gap or an overlap:
  every entry starts where the one before it ended, and no entry ends before it starts.
\<close>

fun chain :: "int \<Rightarrow> gantt_entry list \<Rightarrow> int \<Rightarrow> bool" where
  "chain t [] t' = (t = t')"
| "chain t (g # gs) t' =
     (start_time g = t \<and> start_time g \<le> end_time g \<and> chain (end_time g) gs t')"

text \<open>What identifies a process of the input: the four constructor arguments.\<close>

definition descriptor :: "process \<Rightarrow> string \<times> int \<times> int \<times> int" where
  "descriptor p = (process_id p, arrival_time p, burst_time p, priority p)"

definition dict_descriptor :: "process_dict \<Rightarrow> string \<times> int \<times> int \<times> int" where
  "dict_descriptor d =
     (dict_process_id d, dict_arrival_time d, dict_burst_time d, dict_priority d)"

text \<open>The metrics equations of a completed process, on the object and on its dictionary.\<close>

definition metrics_ok :: "process \<Rightarrow> bool" where
  "metrics_ok p =
     (turnaround_time p = finish_time p - arrival_time p
      \<and> waiting_time p = turnaround_time p - burst_time p \<and> 0 \<le> waiting_time p)"

definition dict_metrics_ok :: "process_dict \<Rightarrow> bool" where
  "dict_metrics_ok d =
     (dict_turnaround_time d = dict_finish_time d - dict_arrival_time d
      \<and> dict_waiting_time d = dict_turnaround_time d - dict_burst_time d
      \<and> 0 \<le> dict_waiting_time d)"

text \<open>
  A valid input: arrivals not negative, bursts positive, and objects as the constructor
  leaves them (\<open>remaining_time\<close> is the burst; no function of the program changes that
  field of an object it hands out).
\<close>

definition valid_input :: "process list \<Rightarrow> bool" where
  "valid_input ps =
     list_all (\<lambda>p. 0 \<le> arrival_time p \<and> 0 < burst_time p \<and> remaining_time p = burst_time p) ps"

text \<open>The Gantt sequence of a returned result: \<open>None\<close> when the call raised or did not
  return within the bound.\<close>

definition gantt_of ::
  "(error + process list \<times> (error + results)) option \<Rightarrow> gantt_entry list option" where
  "gantt_of out = (case out of Some (Inr (ps, Inr r)) \<Rightarrow> Some (res_gantt r) | _ \<Rightarrow> None)"

text \<open>The result every policy returns for an empty list.\<close>

definition empty_results :: results where
  "empty_results =
     \<lparr>res_processes = [], res_gantt = [], res_total_time = 0, res_total_idle_time = 0,
      res_avg_turnaround = 0, res_avg_waiting = 0, res_cpu_utilization = 0\<rparr>"

subsection \<open>Invariant of the non-preemptive loop\<close>

text \<open>
  \<open>frame p q\<close>: the object \<open>q\<close> has the constructor arguments and the remaining
  time of \<open>p\<close>. \<open>np_inv ps0 s\<close> is what every pass of the loop of \<open>schedule_sjf\<close> and
  \<open>schedule_priority\<close> keeps true of a run that started from the list \<open>ps0\<close>;
  \<open>np_need\<close> bounds the passes still to come; \<open>np_select\<close> is the object chosen by
  \<open>min\<close> and \<open>np_ran k\<close> the state after running the object at position \<open>k\<close>.
\<close>

definition frame :: "process \<Rightarrow> process \<Rightarrow> bool" where
  "frame p p' = (descriptor p' = descriptor p \<and> remaining_time p' = remaining_time p)"

definition np_inv :: "process list \<Rightarrow> np_state \<Rightarrow> bool" where
  "np_inv ps0 s =
     (length (processes s) = length ps0
      \<and> distinct (completed s) \<and> set (completed s) \<subseteq> {..<length ps0}
      \<and> (\<forall>i<length ps0. frame (ps0 ! i) (processes s ! i))
      \<and> (\<forall>i\<in>set (completed s). metrics_ok (processes s ! i))
      \<and> chain 0 (gantt s) (current_time s)
      \<and> current_time s - total_idle_time s
          = sum_list (map (\<lambda>i. burst_time (ps0 ! i)) (completed s)))"

definition np_need :: "np_state \<Rightarrow> nat" where
  "np_need s = 2 * (length (processes s) - length (completed s))
                 - (if available s \<noteq> [] then 1 else 0)"

definition np_select :: "(process \<Rightarrow> int \<times> int) \<Rightarrow> np_state \<Rightarrow> nat" where
  "np_select key s = arg_min_list (\<lambda>i. key (processes s ! i)) (available s)"

definition np_ran :: "nat \<Rightarrow> np_state \<Rightarrow> np_state" where
  "np_ran k s =
     (let p = processes s ! k; now = current_time s + burst_time p
      in s\<lparr>gantt := gantt s @ [GanttEntry (process_id p) (current_time s) now],
           current_time := now,
           processes := (processes s)[k := p\<lparr>finish_time := now,
              turnaround_time := now - arrival_time p,
              waiting_time := now - arrival_time p - burst_time p\<rparr>],
           completed := completed s @ [k]\<rparr>)"

subsection \<open>The passes of Round Robin, and what they keep true of the queue\<close>

text \<open>
  \<open>rr_idled\<close>, \<open>rr_exec\<close> and \<open>rr_finish\<close> name the states after the idle branch,
  after the run of the head of the queue, and after a completion; \<open>execute_time\<close> is
  the time the head of the queue runs for. \<open>rr_queue_inv\<close> holds in every state of the
  loop for every input and every quantum: the objects below \<open>process_index\<close> are those
  enqueued so far, each of them is in the queue or counted in \<open>completed\<close>, and the
  counted ones have no time remaining. \<open>rr_reach\<close> is the set of states at the head of
  the loop.
\<close>

definition rr_idled :: "rr_state \<Rightarrow> rr_state" where
  "rr_idled s =
     s\<lparr>gantt := gantt s @ [GanttEntry ''IDLE'' (current_time s)
                           (arrival_time (processes_copy s ! process_index s))],
       total_idle_time := total_idle_time s
          + (arrival_time (processes_copy s ! process_index s) - current_time s),
       current_time := arrival_time (processes_copy s ! process_index s),
       ready_queue := ready_queue s @ [process_index s],
       process_index := process_index s + 1\<rparr>"

definition execute_time :: "int \<Rightarrow> rr_state \<Rightarrow> int" where
  "execute_time tq s = min tq (remaining_time (processes_copy s ! hd (ready_queue s)))"

definition rr_exec :: "int \<Rightarrow> rr_state \<Rightarrow> rr_state" where
  "rr_exec tq s =
     (let c = hd (ready_queue s); p = processes_copy s ! c
      in s\<lparr>ready_queue := tl (ready_queue s),
           gantt := gantt s @ [GanttEntry (process_id p) (current_time s)
                                 (current_time s + execute_time tq s)],
           current_time := current_time s + execute_time tq s,
           processes_copy := (processes_copy s)
              [c := p\<lparr>remaining_time := remaining_time p - execute_time tq s\<rparr>]\<rparr>)"

definition rr_finish :: "nat \<Rightarrow> rr_state \<Rightarrow> rr_state" where
  "rr_finish c s =
     (let p = processes_copy s ! c
      in s\<lparr>processes_copy := (processes_copy s)
             [c := p\<lparr>finish_time := current_time s,
                    turnaround_time := current_time s - arrival_time p,
                    waiting_time := current_time s - arrival_time p - burst_time p\<rparr>],
           completed_count := completed_count s + 1\<rparr>)"

definition rr_queue_inv :: "rr_state \<Rightarrow> bool" where
  "rr_queue_inv s =
     (process_index s \<le> length (processes_copy s)
      \<and> distinct (ready_queue s)
      \<and> set (ready_queue s) \<subseteq> {..<process_index s}
      \<and> completed_count s + length (ready_queue s) = process_index s
      \<and> (\<forall>i<process_index s. i \<notin> set (ready_queue s)
             \<longrightarrow> remaining_time (processes_copy s ! i) = 0))"

inductive rr_reach :: "int \<Rightarrow> process list \<Rightarrow> rr_state \<Rightarrow> bool" where
  rr_start: "rr_reach tq ps (rr_init ps)"
| rr_pass: "rr_reach tq ps s \<Longrightarrow> completed_count s < length (processes_copy s)
     \<Longrightarrow> rr_body tq s = Inr s' \<Longrightarrow> rr_reach tq ps s'"

subsection \<open>Invariant of Round Robin on a valid input\<close>

text \<open>
  \<open>rr_inv pc0 s\<close> is what every pass keeps true when the sorted copy was \<open>pc0\<close>, the
  input was valid and the quantum is positive: the objects waiting or not yet enqueued
  have time remaining, the completed ones carry their metrics, an object in the queue
  has arrived and has run for what it no longer has remaining, the Gantt sequence is a
  chain up to the clock, with an empty queue nothing not yet enqueued has arrived, and
  the clock less the idle time is the time run so far. \<open>quanta\<close> is the number of
  passes an object still needs and \<open>rr_need\<close> their sum; \<open>sorted_copy\<close> is the
  private copy of \<open>schedule_rr\<close>.
\<close>

definition rr_inv :: "process list \<Rightarrow> rr_state \<Rightarrow> bool" where
  "rr_inv pc0 s =
     (rr_queue_inv s
      \<and> length (processes_copy s) = length pc0
      \<and> (\<forall>i<length pc0. descriptor (processes_copy s ! i) = descriptor (pc0 ! i))
      \<and> (\<forall>i<length pc0. i \<in> set (ready_queue s) \<or> process_index s \<le> i
             \<longrightarrow> 0 < remaining_time (processes_copy s ! i))
      \<and> (\<forall>i<process_index s. i \<notin> set (ready_queue s) \<longrightarrow> metrics_ok (processes_copy s ! i))
      \<and> (\<forall>i<length pc0. process_index s \<le> i
             \<longrightarrow> remaining_time (processes_copy s ! i) = burst_time (processes_copy s ! i))
      \<and> (\<forall>i\<in>set (ready_queue s).
             arrival_time (processes_copy s ! i) + burst_time (processes_copy s ! i)
               - remaining_time (processes_copy s ! i) \<le> current_time s)
      \<and> chain 0 (gantt s) (current_time s)
      \<and> (ready_queue s = [] \<longrightarrow>
            (\<forall>i<length pc0. process_index s \<le> i
               \<longrightarrow> current_time s < arrival_time (processes_copy s ! i)))
      \<and> current_time s - total_idle_time s
           = sum_list (map (\<lambda>p. burst_time p - remaining_time p) (processes_copy s)))"

definition quanta :: "int \<Rightarrow> process \<Rightarrow> nat" where
  "quanta tq p = nat ((remaining_time p + tq - 1) div tq)"

definition rr_need :: "int \<Rightarrow> rr_state \<Rightarrow> nat" where
  "rr_need tq s = sum_list (map (quanta tq) (processes_copy s))"

definition sorted_copy :: "process list \<Rightarrow> process list" where
  "sorted_copy ps = sort_key arrival_time (map copy ps)"

subsection \<open>What the claims say of a run and of its result\<close>

text \<open>
  Every policy ends by handing \<open>get_results_dict\<close> its list of processes, its Gantt
  sequence, the clock and the idle time. Of these: \<open>gantt_ok g t\<close> says that the
  sequence \<open>g\<close> starts at 0, each entry ends where the next starts, the starts do not
  decrease, no entry ends before it starts, and the durations add up to \<open>t\<close>;
  \<open>accounted_for ps ps' t idle\<close> says that the processes \<open>ps'\<close> are those of the
  input \<open>ps\<close>, each once, and that the bursts and the idle time add up to \<open>t\<close>. Of a
  returned dictionary, \<open>well_timed\<close>, \<open>metrics_hold\<close> and \<open>accounted\<close> say the same
  of its entries.
\<close>

fun contiguous :: "gantt_entry list \<Rightarrow> bool" where
  "contiguous [] = True"
| "contiguous [g] = True"
| "contiguous (g # h # gs) = (end_time g = start_time h \<and> contiguous (h # gs))"

definition duration :: "gantt_entry \<Rightarrow> int" where
  "duration g = end_time g - start_time g"

definition gantt_ok :: "gantt_entry list \<Rightarrow> int \<Rightarrow> bool" where
  "gantt_ok g total_time =
     ((g \<noteq> [] \<longrightarrow> start_time (hd g) = 0)
      \<and> contiguous g
      \<and> sorted (map start_time g)
      \<and> list_all (\<lambda>e. start_time e \<le> end_time e) g
      \<and> sum_list (map duration g) = total_time)"

definition accounted_for :: "process list \<Rightarrow> process list \<Rightarrow> int \<Rightarrow> int \<Rightarrow> bool" where
  "accounted_for ps ps' total_time idle =
     (mset (map descriptor ps') = mset (map descriptor ps)
      \<and> sum_list (map burst_time ps) + idle = total_time)"

definition well_timed :: "results \<Rightarrow> bool" where
  "well_timed r = gantt_ok (res_gantt r) (res_total_time r)"

definition metrics_hold :: "results \<Rightarrow> bool" where
  "metrics_hold r = list_all dict_metrics_ok (res_processes r)"

definition accounted :: "process list \<Rightarrow> results \<Rightarrow> bool" where
  "accounted ps r =
     (mset (map dict_descriptor (res_processes r)) = mset (map descriptor ps)
      \<and> sum_list (map burst_time ps) + res_total_idle_time r = res_total_time r)"

text \<open>
  \<open>ended out P\<close>: the loop ended, without an exception and within the bound, in a
  state of which \<open>P\<close> holds. \<open>returned_unless_overflow out P\<close>: the loop of the call
  ended so, and \<open>get_results_dict\<close> then either returned a dictionary of which \<open>P\<close>
  holds or raised \<open>OverflowError\<close>. \<open>fcfs_end\<close> is the list and the time line at the
  end of the loop of \<open>schedule_fcfs\<close>, which has no bound and raises nothing.
  \<open>np_bound\<close> and \<open>rr_bound\<close> are the numbers of passes within which the loops end.
\<close>

definition ended :: "(error + 's) option \<Rightarrow> ('s \<Rightarrow> bool) \<Rightarrow> bool" where
  "ended out P = (case out of Some (Inr s) \<Rightarrow> P s | _ \<Rightarrow> False)"

definition returned_unless_overflow ::
  "(error + process list \<times> (error + results)) option \<Rightarrow> (results \<Rightarrow> bool) \<Rightarrow> bool" where
  "returned_unless_overflow out P =
     (case out of
        Some (Inr (ps, Inr r)) \<Rightarrow> P r
      | Some (Inr (ps, Inl e)) \<Rightarrow> e = OverflowError
      | _ \<Rightarrow> False)"

text \<open>\<open>returned out P\<close>: the call returned a dictionary of which \<open>P\<close> holds.\<close>

definition returned ::
  "(error + process list \<times> (error + results)) option \<Rightarrow> (results \<Rightarrow> bool) \<Rightarrow> bool" where
  "returned out P = (case out of Some (Inr (ps, Inr r)) \<Rightarrow> P r | _ \<Rightarrow> False)"

definition fcfs_end :: "process list \<Rightarrow> process list \<times> timeline" where
  "fcfs_end ps = fcfs_loop (sort_key arrival_time ps) timeline_init"

definition np_bound :: "process list \<Rightarrow> nat" where
  "np_bound ps = 2 * length ps"

definition rr_bound :: "process list \<Rightarrow> int \<Rightarrow> nat" where
  "rr_bound ps tq = length ps + nat (sum_list (map burst_time ps) div tq)"

text \<open>The caller's list after a call whose loop ended, whether \<open>get_results_dict\<close>
  then returned or raised: \<open>None\<close> when the loop raised or did not end within the
  bound.\<close>

definition caller_list ::
  "(error + process list \<times> (error + results)) option \<Rightarrow> process list option" where
  "caller_list out = (case out of Some (Inr (ps, res)) \<Rightarrow> Some ps | _ \<Rightarrow> None)"

section \<open>The time line of First-Come, First-Served\<close>

lemma chain_append:
  "chain a (xs @ ys) c = (\<exists>b. chain a xs b \<and> chain b ys c)"
  by (induction xs arbitrary: a) auto

lemma chain_snoc:
  "chain a xs b \<Longrightarrow> b \<le> e \<Longrightarrow> chain a (xs @ [GanttEntry l b e]) e"
  by (auto simp: chain_append GanttEntry_def)

lemma chain_snoc2:
  "chain a xs b \<Longrightarrow> b \<le> c \<Longrightarrow> c \<le> e
     \<Longrightarrow> chain a (xs @ [GanttEntry l b c, GanttEntry l' c e]) e"
  by (auto simp: chain_append GanttEntry_def)

lemma fcfs_body_chain:
  assumes "fcfs_body p t = (p', t')" "chain a (gantt t) (current_time t)" "0 \<le> burst_time p"
  shows "chain a (gantt t') (current_time t')"
  using assms by (auto simp: fcfs_body_def Let_def intro!: chain_snoc chain_snoc2)

lemma fcfs_body_time:
  assumes "fcfs_body p t = (p', t')"
  shows "current_time t' - total_idle_time t' = current_time t - total_idle_time t + burst_time p"
  using assms by (auto simp: fcfs_body_def Let_def)

lemma fcfs_loop_chain:
  "fcfs_loop ps t = (ps', t') \<Longrightarrow> chain a (gantt t) (current_time t)
     \<Longrightarrow> \<forall>p\<in>set ps. 0 \<le> burst_time p \<Longrightarrow> chain a (gantt t') (current_time t')"
proof (induction ps arbitrary: t ps' t')
  case Nil
  then show ?case by simp
next
  case (Cons p ps)
  obtain p1 t1 where b: "fcfs_body p t = (p1, t1)" by (cases "fcfs_body p t")
  obtain ps2 t2 where l: "fcfs_loop ps t1 = (ps2, t2)" by (cases "fcfs_loop ps t1")
  from Cons.prems b l have t2: "t2 = t'" by simp
  from b Cons.prems have "chain a (gantt t1) (current_time t1)"
    by (auto intro: fcfs_body_chain)
  with l Cons.prems Cons.IH t2 show ?case by auto
qed

lemma fcfs_loop_time:
  "fcfs_loop ps t = (ps', t') \<Longrightarrow>
     current_time t' - total_idle_time t' = current_time t - total_idle_time t + sum_list (map burst_time ps)"
proof (induction ps arbitrary: t ps' t')
  case Nil
  then show ?case by simp
next
  case (Cons p ps)
  obtain p1 t1 where b: "fcfs_body p t = (p1, t1)" by (cases "fcfs_body p t")
  obtain ps2 t2 where l: "fcfs_loop ps t1 = (ps2, t2)" by (cases "fcfs_loop ps t1")
  from Cons.prems b l have t2: "t2 = t'" by simp
  from fcfs_body_time[OF b] Cons.IH[OF l] t2 show ?case by simp
qed

section \<open>The non-preemptive loop\<close>

lemma np_inv_init: "np_inv ps (np_init ps)"
  by (simp add: np_inv_def np_init_def frame_def)

lemma np_invD:
  assumes "np_inv ps0 s"
  shows "length (processes s) = length ps0"
    and "distinct (completed s)"
    and "set (completed s) \<subseteq> {..<length ps0}"
    and "\<And>i. i < length ps0 \<Longrightarrow> frame (ps0 ! i) (processes s ! i)"
    and "\<And>i. i \<in> set (completed s) \<Longrightarrow> metrics_ok (processes s ! i)"
    and "chain 0 (gantt s) (current_time s)"
    and "current_time s - total_idle_time s
          = sum_list (map (\<lambda>i. burst_time (ps0 ! i)) (completed s))"
  using assms unfolding np_inv_def by blast+

lemma pending_nonempty:
  assumes "np_inv ps0 s" "length (completed s) < length (processes s)"
  shows "pending_arrivals s \<noteq> []"
proof -
  let ?n = "length (processes s)"
  have c: "card (set (completed s)) = length (completed s)"
    using np_invD(2)[OF assms(1)] by (rule distinct_card)
  have "\<not> {..<?n} \<subseteq> set (completed s)"
  proof
    assume "{..<?n} \<subseteq> set (completed s)"
    then have "card {..<?n} \<le> card (set (completed s))"
      by (intro card_mono) simp_all
    with c assms(2) show False by simp
  qed
  then obtain i where "i < ?n" "i \<notin> set (completed s)" by blast
  then have "i \<in> set (filter (\<lambda>i. i \<notin> set (completed s)) [0..<?n])" by simp
  then have "filter (\<lambda>i. i \<notin> set (completed s)) [0..<?n] \<noteq> []" by force
  then show ?thesis unfolding pending_arrivals_def by simp
qed

lemma idle_gap:
  assumes "available s = []" "pending_arrivals s \<noteq> []"
  shows "current_time s < min_list (pending_arrivals s)"
proof -
  have "min_list (pending_arrivals s) \<in> set (pending_arrivals s)"
    using assms(2) by (simp add: min_list_Min)
  then obtain i where i: "i < length (processes s)" "i \<notin> set (completed s)"
     "min_list (pending_arrivals s) = arrival_time (processes s ! i)"
    unfolding pending_arrivals_def by auto
  from assms(1) i(1,2) have "\<not> arrival_time (processes s ! i) \<le> current_time s"
    unfolding available_def by (auto simp: filter_empty_conv)
  with i(3) show ?thesis by simp
qed

lemma np_body_idle:
  assumes "available s = []" "pending_arrivals s \<noteq> []"
  shows "np_body key s =
     Inr (s\<lparr>gantt := gantt s @ [GanttEntry ''IDLE'' (current_time s) (min_list (pending_arrivals s))],
            total_idle_time := total_idle_time s + (min_list (pending_arrivals s) - current_time s),
            current_time := min_list (pending_arrivals s)\<rparr>)"
  using assms by (simp add: np_body_def Let_def)

lemma available_after_idle:
  assumes "pending_arrivals s \<noteq> []"
  shows "available (s\<lparr>gantt := g, total_idle_time := d,
            current_time := min_list (pending_arrivals s)\<rparr>) \<noteq> []"
proof -
  have "min_list (pending_arrivals s) \<in> set (pending_arrivals s)"
    using assms by (simp add: min_list_Min)
  then obtain i where i: "i < length (processes s)" "i \<notin> set (completed s)"
     "min_list (pending_arrivals s) = arrival_time (processes s ! i)"
    unfolding pending_arrivals_def by auto
  then show ?thesis unfolding available_def by (auto simp: filter_empty_conv)
qed

lemma np_inv_idle:
  assumes "np_inv ps0 s" "available s = []" "pending_arrivals s \<noteq> []"
  shows "np_inv ps0 (s\<lparr>gantt := gantt s @ [GanttEntry ''IDLE'' (current_time s) (min_list (pending_arrivals s))],
            total_idle_time := total_idle_time s + (min_list (pending_arrivals s) - current_time s),
            current_time := min_list (pending_arrivals s)\<rparr>)"
  using assms(1) idle_gap[OF assms(2,3)]
  by (simp add: np_inv_def chain_snoc)

lemma np_select_props:
  assumes "available s \<noteq> []"
  shows "np_select key s < length (processes s)" "np_select key s \<notin> set (completed s)"
    "arrival_time (processes s ! np_select key s) \<le> current_time s"
proof -
  have "np_select key s \<in> set (available s)"
    unfolding np_select_def using assms by (rule arg_min_list_in)
  then show "np_select key s < length (processes s)" "np_select key s \<notin> set (completed s)"
    "arrival_time (processes s ! np_select key s) \<le> current_time s"
    unfolding available_def by auto
qed

lemma np_body_run:
  assumes "available s \<noteq> []"
  shows "np_body key s = Inr (np_ran (np_select key s) s)"
  using assms by (simp add: np_body_def np_ran_def np_select_def Let_def)

lemma np_ran_fields:
  "completed (np_ran k s) = completed s @ [k]"
  "length (processes (np_ran k s)) = length (processes s)"
  "total_idle_time (np_ran k s) = total_idle_time s"
  "current_time (np_ran k s) = current_time s + burst_time (processes s ! k)"
  "gantt (np_ran k s) = gantt s @ [GanttEntry (process_id (processes s ! k)) (current_time s)
      (current_time s + burst_time (processes s ! k))]"
  by (simp_all add: np_ran_def Let_def)

lemma np_ran_nth:
  "i < length (processes s) \<Longrightarrow> processes (np_ran k s) ! i =
     (if i = k then (processes s ! k)\<lparr>finish_time := current_time s + burst_time (processes s ! k),
              turnaround_time := current_time s + burst_time (processes s ! k) - arrival_time (processes s ! k),
              waiting_time := current_time s + burst_time (processes s ! k) - arrival_time (processes s ! k)
                  - burst_time (processes s ! k)\<rparr>
      else processes s ! i)"
  by (simp add: np_ran_def Let_def nth_list_update)

lemma np_inv_run:
  assumes inv: "np_inv ps0 s" and k: "k < length (processes s)" "k \<notin> set (completed s)"
    "arrival_time (processes s ! k) \<le> current_time s"
    and b: "0 \<le> burst_time (processes s ! k)"
  shows "np_inv ps0 (np_ran k s)"
proof -
  note len = np_invD(1)[OF inv] and dist = np_invD(2)[OF inv] and sub = np_invD(3)[OF inv]
    and fr = np_invD(4)[OF inv] and met = np_invD(5)[OF inv] and ch = np_invD(6)[OF inv]
    and tm = np_invD(7)[OF inv]
  have 1: "length (processes (np_ran k s)) = length ps0"
    using len by (simp add: np_ran_fields)
  have 2: "distinct (completed (np_ran k s))"
    using dist k(2) by (simp add: np_ran_fields)
  have 3: "set (completed (np_ran k s)) \<subseteq> {..<length ps0}"
    using sub k(1) len by (simp add: np_ran_fields)
  have 4: "\<forall>i<length ps0. frame (ps0 ! i) (processes (np_ran k s) ! i)"
  proof (intro allI impI)
    fix i assume i: "i < length ps0"
    from fr[OF i] i len show "frame (ps0 ! i) (processes (np_ran k s) ! i)"
      by (auto simp: np_ran_nth frame_def descriptor_def)
  qed
  have 5: "\<forall>i\<in>set (completed (np_ran k s)). metrics_ok (processes (np_ran k s) ! i)"
  proof
    fix i assume "i \<in> set (completed (np_ran k s))"
    then have "i = k \<or> (i \<in> set (completed s) \<and> i \<noteq> k)"
      using k(2) by (auto simp: np_ran_fields)
    then show "metrics_ok (processes (np_ran k s) ! i)"
    proof
      assume "i = k"
      with k(1,3) show ?thesis by (simp add: np_ran_nth metrics_ok_def)
    next
      assume a: "i \<in> set (completed s) \<and> i \<noteq> k"
      with sub len have "i < length (processes s)" by auto
      with a met[of i] show ?thesis by (simp add: np_ran_nth)
    qed
  qed
  have 6: "chain 0 (gantt (np_ran k s)) (current_time (np_ran k s))"
    using ch b by (simp add: np_ran_fields chain_snoc)
  have "burst_time (ps0 ! k) = burst_time (processes s ! k)"
    using fr[of k] k(1) len by (simp add: frame_def descriptor_def)
  then have 7: "current_time (np_ran k s) - total_idle_time (np_ran k s)
          = sum_list (map (\<lambda>i. burst_time (ps0 ! i)) (completed (np_ran k s)))"
    using tm by (simp add: np_ran_fields)
  from 1 2 3 4 5 6 7 show ?thesis unfolding np_inv_def by fast
qed

lemma np_completed_le:
  assumes "np_inv ps0 s"
  shows "length (completed s) \<le> length ps0"
proof -
  have "card (set (completed s)) \<le> card {..<length ps0}"
    using np_invD(3)[OF assms] by (intro card_mono) simp_all
  then show ?thesis using distinct_card[OF np_invD(2)[OF assms]] by simp
qed

lemma np_completed_all:
  assumes "np_inv ps0 s" "length (completed s) = length ps0"
  shows "set (completed s) = {..<length ps0}"
proof (rule card_subset_eq)
  show "finite {..<length ps0}" by simp
  show "set (completed s) \<subseteq> {..<length ps0}" by (rule np_invD(3)[OF assms(1)])
  show "card (set (completed s)) = card {..<length ps0}"
    using distinct_card[OF np_invD(2)[OF assms(1)]] assms(2) by simp
qed

lemma np_loop_done:
  "\<not> length (completed s) < length (processes s) \<Longrightarrow> np_loop key fuel s = Some (Inr s)"
  by (cases fuel) simp_all

lemma np_loop_terminates:
  assumes "\<forall>p\<in>set ps0. 0 \<le> burst_time p"
  shows "np_inv ps0 s \<Longrightarrow> np_need s \<le> fuel \<Longrightarrow>
     \<exists>s'. np_loop key fuel s = Some (Inr s') \<and> np_inv ps0 s'
        \<and> length (completed s') = length ps0"
proof (induction fuel arbitrary: s)
  case 0
  note len = np_invD(1)[OF "0.prems"(1)]
  from "0.prems"(2) have "\<not> length (completed s) < length (processes s)"
    by (auto simp: np_need_def split: if_splits)
  moreover from this np_completed_le[OF "0.prems"(1)] len
  have "length (completed s) = length ps0" by simp
  ultimately show ?case using "0.prems"(1) by (simp add: np_loop_done)
next
  case (Suc fuel)
  note inv = Suc.prems(1)
  note len = np_invD(1)[OF inv]
  show ?case
  proof (cases "length (completed s) < length (processes s)")
    case False
    with np_completed_le[OF inv] len have "length (completed s) = length ps0" by simp
    with False inv show ?thesis by (simp add: np_loop_done)
  next
    case guard: True
    show ?thesis
    proof (cases "available s = []")
      case True
      note pend = pending_nonempty[OF inv guard]
      let ?s1 = "s\<lparr>gantt := gantt s @ [GanttEntry ''IDLE'' (current_time s) (min_list (pending_arrivals s))],
            total_idle_time := total_idle_time s + (min_list (pending_arrivals s) - current_time s),
            current_time := min_list (pending_arrivals s)\<rparr>"
      have body: "np_body key s = Inr ?s1" by (rule np_body_idle[OF True pend])
      have inv1: "np_inv ps0 ?s1" by (rule np_inv_idle[OF inv True pend])
      have "available ?s1 \<noteq> []" by (rule available_after_idle[OF pend])
      with Suc.prems(2) True guard have "np_need ?s1 \<le> fuel"
        by (simp add: np_need_def)
      from Suc.IH[OF inv1 this] guard body show ?thesis by simp
    next
      case False
      let ?k = "np_select key s"
      note sel = np_select_props[OF False, of key]
      have body: "np_body key s = Inr (np_ran ?k s)" by (rule np_body_run[OF False])
      have "burst_time (processes s ! ?k) = burst_time (ps0 ! ?k)"
        using np_invD(4)[OF inv, of ?k] sel(1) len by (simp add: frame_def descriptor_def)
      moreover have "ps0 ! ?k \<in> set ps0" using sel(1) len by simp
      ultimately have "0 \<le> burst_time (processes s ! ?k)" using assms by simp
      then have inv1: "np_inv ps0 (np_ran ?k s)"
        using inv sel by (intro np_inv_run)
      from Suc.prems(2) False guard have "np_need (np_ran ?k s) \<le> fuel"
        by (simp add: np_need_def np_ran_fields)
      from Suc.IH[OF inv1 this] guard body show ?thesis by simp
    qed
  qed
qed

lemma np_need_init: "np_need (np_init ps) \<le> 2 * length ps"
  by (simp add: np_need_def np_init_def)

lemma np_loop_init:
  assumes "\<forall>p\<in>set ps. 0 \<le> burst_time p" "2 * length ps \<le> fuel"
  shows "\<exists>s'. np_loop key fuel (np_init ps) = Some (Inr s') \<and> np_inv ps s'
        \<and> length (completed s') = length ps"
proof -
  have "np_need (np_init ps) \<le> fuel" using np_need_init[of ps] assms(2) by simp
  from np_loop_terminates[OF assms(1) np_inv_init this] show ?thesis .
qed

lemma sum_list_perm_upt:
  fixes f :: "'a \<Rightarrow> int"
  assumes "distinct xs" "set xs = {..<length ps}"
  shows "sum_list (map (\<lambda>i. f (ps ! i)) xs) = sum_list (map f ps)"
proof -
  let ?g = "\<lambda>i. f (ps ! i)"
  have "mset_set (set xs) = mset xs" using assms(1) by (rule mset_set_set)
  then have m: "mset xs = mset [0..<length ps]"
    using assms(2) by (simp add: lessThan_atLeast0)
  have "sum_mset (image_mset ?g (mset xs)) = sum_mset (image_mset ?g (mset [0..<length ps]))"
    by (simp only: m)
  then have "sum_mset (mset (map ?g xs)) = sum_mset (mset (map ?g [0..<length ps]))"
    by (simp only: mset_map)
  then have "sum_list (map ?g xs) = sum_list (map ?g [0..<length ps])"
    by (simp only: sum_mset_sum_list)
  also have "map ?g [0..<length ps] = map f ps"
    by (rule nth_equalityI) simp_all
  finally show ?thesis .
qed

lemma np_final:
  assumes "np_inv ps s" "length (completed s) = length ps"
  shows "chain 0 (gantt s) (current_time s)"
    and "current_time s - total_idle_time s = sum_list (map burst_time ps)"
    and "map descriptor (processes s) = map descriptor ps"
    and "map remaining_time (processes s) = map remaining_time ps"
    and "list_all metrics_ok (processes s)"
proof -
  note len = np_invD(1)[OF assms(1)]
  note all = np_completed_all[OF assms]
  show "chain 0 (gantt s) (current_time s)" by (rule np_invD(6)[OF assms(1)])
  show "current_time s - total_idle_time s = sum_list (map burst_time ps)"
    using np_invD(7)[OF assms(1)] sum_list_perm_upt[OF np_invD(2)[OF assms(1)] all, of burst_time]
    by simp
  show "map descriptor (processes s) = map descriptor ps"
    using len np_invD(4)[OF assms(1)] by (auto simp: list_eq_iff_nth_eq frame_def)
  show "map remaining_time (processes s) = map remaining_time ps"
    using len np_invD(4)[OF assms(1)] by (auto simp: list_eq_iff_nth_eq frame_def)
  show "list_all metrics_ok (processes s)"
    unfolding list_all_length using np_invD(5)[OF assms(1)] all len by auto
qed

section \<open>Round Robin: one pass of the loop\<close>

lemma admit_stop:
  "\<not> (process_index s < length (processes_copy s)
         \<and> arrival_time (processes_copy s ! process_index s) \<le> current_time s)
   \<Longrightarrow> admit s = s"
  by (subst admit.simps) auto

lemma admit_go:
  "process_index s < length (processes_copy s)
     \<Longrightarrow> arrival_time (processes_copy s ! process_index s) \<le> current_time s
     \<Longrightarrow> admit s = admit (s\<lparr>ready_queue := ready_queue s @ [process_index s],
                     process_index := process_index s + 1\<rparr>)"
  by (subst admit.simps) simp

lemma admit_char:
  "process_index s \<le> length (processes_copy s) \<Longrightarrow>
   (\<exists>k. process_index s \<le> k \<and> k \<le> length (processes_copy s)
      \<and> admit s = s\<lparr>ready_queue := ready_queue s @ [process_index s..<k], process_index := k\<rparr>
      \<and> (\<forall>j. process_index s \<le> j \<and> j < k \<longrightarrow> arrival_time (processes_copy s ! j) \<le> current_time s)
      \<and> (k < length (processes_copy s) \<longrightarrow> current_time s < arrival_time (processes_copy s ! k)))"
proof (induction s rule: admit.induct)
  case (1 s)
  let ?n = "length (processes_copy s)" and ?i = "process_index s"
  show ?case
  proof (cases "?i < ?n \<and> arrival_time (processes_copy s ! ?i) \<le> current_time s")
    case False
    then have "admit s = s" by (rule admit_stop)
    with False "1.prems" show ?thesis by (intro exI[of _ ?i]) auto
  next
    case True
    let ?s1 = "s\<lparr>ready_queue := ready_queue s @ [?i], process_index := ?i + 1\<rparr>"
    from True have eq: "admit s = admit ?s1" by (simp add: admit_go)
    from True have "process_index ?s1 \<le> length (processes_copy ?s1)" by simp
    from "1.IH"[OF True this] obtain k where k:
      "Suc ?i \<le> k" "k \<le> ?n"
      "admit ?s1 = ?s1\<lparr>ready_queue := ready_queue ?s1 @ [process_index ?s1..<k], process_index := k\<rparr>"
      "\<forall>j. Suc ?i \<le> j \<and> j < k \<longrightarrow> arrival_time (processes_copy s ! j) \<le> current_time s"
      "k < ?n \<longrightarrow> current_time s < arrival_time (processes_copy s ! k)"
      by auto
    have upt: "[?i..<k] = ?i # [Suc ?i..<k]" using k(1) by (simp add: upt_conv_Cons)
    have "admit s = s\<lparr>ready_queue := ready_queue s @ [?i..<k], process_index := k\<rparr>"
      using eq k(3) upt by simp
    moreover have "\<forall>j. ?i \<le> j \<and> j < k \<longrightarrow> arrival_time (processes_copy s ! j) \<le> current_time s"
    proof (intro allI impI)
      fix j assume j: "?i \<le> j \<and> j < k"
      show "arrival_time (processes_copy s ! j) \<le> current_time s"
      proof (cases "j = ?i")
        case True with \<open>?i < ?n \<and> _\<close> show ?thesis by simp
      next
        case False with j k(4) show ?thesis by simp
      qed
    qed
    ultimately show ?thesis using k(1,2,5) by (intro exI[of _ k]) simp
  qed
qed

lemma rr_idle_eq:
  "rr_idle s = (if ready_queue s = [] then
                  (if process_index s < length (processes_copy s) then Inr (rr_idled s)
                   else Inl IndexError)
                else Inr s)"
  by (simp add: rr_idle_def rr_idled_def Let_def)

lemma admit_frame:
  "processes_copy (admit s) = processes_copy s \<and> gantt (admit s) = gantt s
   \<and> current_time (admit s) = current_time s \<and> total_idle_time (admit s) = total_idle_time s
   \<and> completed_count (admit s) = completed_count s"
proof (induction s rule: admit.induct)
  case (1 s)
  show ?case
  proof (cases "process_index s < length (processes_copy s)
         \<and> arrival_time (processes_copy s ! process_index s) \<le> current_time s")
    case True
    with "1.IH" show ?thesis by (simp add: admit_go)
  next
    case False
    then show ?thesis by (simp add: admit_stop)
  qed
qed

lemma rr_exec_fields:
  "ready_queue (rr_exec tq s) = tl (ready_queue s)"
  "process_index (rr_exec tq s) = process_index s"
  "completed_count (rr_exec tq s) = completed_count s"
  "total_idle_time (rr_exec tq s) = total_idle_time s"
  "current_time (rr_exec tq s) = current_time s + execute_time tq s"
  "length (processes_copy (rr_exec tq s)) = length (processes_copy s)"
  "gantt (rr_exec tq s) = gantt s @ [GanttEntry (process_id (processes_copy s ! hd (ready_queue s)))
       (current_time s) (current_time s + execute_time tq s)]"
  "processes_copy (rr_exec tq s) = (processes_copy s)[hd (ready_queue s) :=
       (processes_copy s ! hd (ready_queue s))\<lparr>remaining_time :=
          remaining_time (processes_copy s ! hd (ready_queue s)) - execute_time tq s\<rparr>]"
  by (simp_all add: rr_exec_def Let_def)

lemma rr_run_eq:
  assumes "ready_queue s = c # rest" "c < length (processes_copy s)"
  shows "rr_run tq s =
     Inr (if 0 < remaining_time (processes_copy s ! c) - execute_time tq s
          then (admit (rr_exec tq s))\<lparr>ready_queue := ready_queue (admit (rr_exec tq s)) @ [c]\<rparr>
          else rr_finish c (admit (rr_exec tq s)))"
proof -
  let ?p1 = "(processes_copy s ! c)\<lparr>remaining_time :=
          remaining_time (processes_copy s ! c) - execute_time tq s\<rparr>"
  have ex: "s\<lparr>ready_queue := rest,
         gantt := gantt s @ [GanttEntry (process_id (processes_copy s ! c)) (current_time s)
            (current_time s + min tq (remaining_time (processes_copy s ! c)))],
         current_time := current_time s + min tq (remaining_time (processes_copy s ! c)),
         processes_copy := (processes_copy s)[c := (processes_copy s ! c)\<lparr>remaining_time :=
            remaining_time (processes_copy s ! c) - min tq (remaining_time (processes_copy s ! c))\<rparr>]\<rparr>
       = rr_exec tq s"
    using assms(1) by (simp add: rr_exec_def execute_time_def Let_def)
  have pc: "processes_copy (admit (rr_exec tq s)) ! c = ?p1"
    using assms by (simp add: admit_frame rr_exec_fields)
  have et: "min tq (remaining_time (processes_copy s ! c)) = execute_time tq s"
    using assms(1) by (simp add: execute_time_def)
  show ?thesis
    unfolding rr_run_def assms(1) list.case Let_def ex
    by (simp add: rr_finish_def Let_def pc et)
qed

lemma rr_queue_invD:
  assumes "rr_queue_inv s"
  shows "process_index s \<le> length (processes_copy s)"
    and "distinct (ready_queue s)"
    and "set (ready_queue s) \<subseteq> {..<process_index s}"
    and "completed_count s + length (ready_queue s) = process_index s"
    and "\<And>i. i < process_index s \<Longrightarrow> i \<notin> set (ready_queue s)
           \<Longrightarrow> remaining_time (processes_copy s ! i) = 0"
  using assms unfolding rr_queue_inv_def by blast+

lemma rr_finish_fields:
  "ready_queue (rr_finish c s) = ready_queue s"
  "process_index (rr_finish c s) = process_index s"
  "completed_count (rr_finish c s) = completed_count s + 1"
  "total_idle_time (rr_finish c s) = total_idle_time s"
  "current_time (rr_finish c s) = current_time s"
  "gantt (rr_finish c s) = gantt s"
  "processes_copy (rr_finish c s) = (processes_copy s)[c :=
       (processes_copy s ! c)\<lparr>finish_time := current_time s,
          turnaround_time := current_time s - arrival_time (processes_copy s ! c),
          waiting_time := current_time s - arrival_time (processes_copy s ! c)
             - burst_time (processes_copy s ! c)\<rparr>]"
  by (simp_all add: rr_finish_def Let_def)

text \<open>The state after the pass that runs the head \<open>c\<close> of the queue, field by field.\<close>

lemma rr_run_char:
  fixes tq :: int
  assumes inv: "rr_queue_inv s" and q: "ready_queue s = c # rest"
  defines "e \<equiv> execute_time tq s"
  defines "p \<equiv> processes_copy s ! c"
  shows "\<exists>k s'. rr_run tq s = Inr s'
      \<and> process_index s \<le> k \<and> k \<le> length (processes_copy s)
      \<and> process_index s' = k
      \<and> gantt s' = gantt s @ [GanttEntry (process_id p) (current_time s) (current_time s + e)]
      \<and> current_time s' = current_time s + e
      \<and> total_idle_time s' = total_idle_time s
      \<and> (\<forall>j. process_index s \<le> j \<and> j < k
             \<longrightarrow> arrival_time (processes_copy s ! j) \<le> current_time s + e)
      \<and> (k < length (processes_copy s)
             \<longrightarrow> current_time s + e < arrival_time (processes_copy s ! k))
      \<and> (if 0 < remaining_time p - e
          then ready_queue s' = rest @ [process_index s..<k] @ [c]
             \<and> processes_copy s' = (processes_copy s)[c := p\<lparr>remaining_time := remaining_time p - e\<rparr>]
             \<and> completed_count s' = completed_count s
          else ready_queue s' = rest @ [process_index s..<k]
             \<and> processes_copy s' = (processes_copy s)[c := p\<lparr>remaining_time := remaining_time p - e,
                    finish_time := current_time s + e,
                    turnaround_time := current_time s + e - arrival_time p,
                    waiting_time := current_time s + e - arrival_time p - burst_time p\<rparr>]
             \<and> completed_count s' = completed_count s + 1)"
proof -
  let ?n = "length (processes_copy s)" and ?i = "process_index s"
  let ?x = "rr_exec tq s"
  from rr_queue_invD(3)[OF inv] q have ci: "c < ?i" by simp
  with rr_queue_invD(1)[OF inv] have cn: "c < ?n" by simp
  have hd: "hd (ready_queue s) = c" "tl (ready_queue s) = rest" using q by simp_all
  have "process_index ?x \<le> length (processes_copy ?x)"
    using rr_queue_invD(1)[OF inv] by (simp add: rr_exec_fields)
  from admit_char[OF this] obtain k where k:
    "?i \<le> k" "k \<le> ?n"
    "admit ?x = ?x\<lparr>ready_queue := ready_queue ?x @ [process_index ?x..<k], process_index := k\<rparr>"
    "\<forall>j. ?i \<le> j \<and> j < k \<longrightarrow> arrival_time (processes_copy ?x ! j) \<le> current_time ?x"
    "k < ?n \<longrightarrow> current_time ?x < arrival_time (processes_copy ?x ! k)"
    by (auto simp: rr_exec_fields(2,6))
  have other: "\<And>j. ?i \<le> j \<Longrightarrow> processes_copy ?x ! j = processes_copy s ! j"
    using ci by (simp add: rr_exec_fields hd)
  have af: "ready_queue (admit ?x) = rest @ [?i..<k]" "process_index (admit ?x) = k"
    by (simp_all add: k(3) rr_exec_fields hd)
  have fr: "processes_copy (admit ?x) = (processes_copy s)[c := p\<lparr>remaining_time := remaining_time p - e\<rparr>]"
    "gantt (admit ?x) = gantt s @ [GanttEntry (process_id p) (current_time s) (current_time s + e)]"
    "current_time (admit ?x) = current_time s + e"
    "total_idle_time (admit ?x) = total_idle_time s"
    "completed_count (admit ?x) = completed_count s"
    by (simp_all add: admit_frame rr_exec_fields hd p_def e_def)
  have a1: "\<forall>j. ?i \<le> j \<and> j < k \<longrightarrow> arrival_time (processes_copy s ! j) \<le> current_time s + e"
    using k(4) other by (simp add: rr_exec_fields e_def)
  have a2: "k < ?n \<longrightarrow> current_time s + e < arrival_time (processes_copy s ! k)"
    using k(5) other[OF k(1)] by (simp add: rr_exec_fields e_def)
  show ?thesis
  proof (cases "0 < remaining_time p - e")
    case True
    let ?s' = "(admit ?x)\<lparr>ready_queue := ready_queue (admit ?x) @ [c]\<rparr>"
    have "rr_run tq s = Inr ?s'"
      using True by (simp add: rr_run_eq[OF q cn] p_def e_def)
    moreover have "process_index ?s' = k" "ready_queue ?s' = rest @ [?i..<k] @ [c]"
      "processes_copy ?s' = (processes_copy s)[c := p\<lparr>remaining_time := remaining_time p - e\<rparr>]"
      "gantt ?s' = gantt s @ [GanttEntry (process_id p) (current_time s) (current_time s + e)]"
      "current_time ?s' = current_time s + e" "total_idle_time ?s' = total_idle_time s"
      "completed_count ?s' = completed_count s"
      by (simp_all add: af fr)
    ultimately show ?thesis using True k(1,2) a1 a2 by (intro exI[of _ k] exI[of _ ?s']) simp
  next
    case False
    let ?s' = "rr_finish c (admit ?x)"
    have "rr_run tq s = Inr ?s'"
      using False by (simp add: rr_run_eq[OF q cn] p_def e_def)
    moreover have "process_index ?s' = k" "ready_queue ?s' = rest @ [?i..<k]"
      "gantt ?s' = gantt s @ [GanttEntry (process_id p) (current_time s) (current_time s + e)]"
      "current_time ?s' = current_time s + e" "total_idle_time ?s' = total_idle_time s"
      "completed_count ?s' = completed_count s + 1"
      by (simp_all add: rr_finish_fields af fr)
    moreover have "processes_copy ?s' = (processes_copy s)[c := p\<lparr>remaining_time := remaining_time p - e,
                    finish_time := current_time s + e,
                    turnaround_time := current_time s + e - arrival_time p,
                    waiting_time := current_time s + e - arrival_time p - burst_time p\<rparr>]"
      using cn by (simp add: rr_finish_fields fr)
    ultimately show ?thesis using False k(1,2) a1 a2 by (intro exI[of _ k] exI[of _ ?s']) simp
  qed
qed

lemma rr_idled_fields:
  "ready_queue (rr_idled s) = ready_queue s @ [process_index s]"
  "process_index (rr_idled s) = process_index s + 1"
  "completed_count (rr_idled s) = completed_count s"
  "processes_copy (rr_idled s) = processes_copy s"
  "current_time (rr_idled s) = arrival_time (processes_copy s ! process_index s)"
  "total_idle_time (rr_idled s) = total_idle_time s
      + (arrival_time (processes_copy s ! process_index s) - current_time s)"
  "gantt (rr_idled s) = gantt s @ [GanttEntry ''IDLE'' (current_time s)
      (arrival_time (processes_copy s ! process_index s))]"
  by (simp_all add: rr_idled_def)

lemma rr_queue_inv_idled:
  assumes "rr_queue_inv s" "ready_queue s = []" "process_index s < length (processes_copy s)"
  shows "rr_queue_inv (rr_idled s)"
  using assms unfolding rr_queue_inv_def rr_idled_fields
  by (auto simp: less_Suc_eq)

lemma rr_idle_ok:
  assumes "rr_queue_inv s" "completed_count s < length (processes_copy s)"
  shows "\<exists>s1. rr_idle s = Inr s1 \<and> rr_queue_inv s1 \<and> ready_queue s1 \<noteq> []
     \<and> (s1 = s \<and> ready_queue s \<noteq> []
         \<or> s1 = rr_idled s \<and> ready_queue s = [] \<and> process_index s < length (processes_copy s))"
proof (cases "ready_queue s = []")
  case True
  with rr_queue_invD(4)[OF assms(1)] assms(2) have lt: "process_index s < length (processes_copy s)"
    by simp
  with True rr_queue_inv_idled[OF assms(1) True lt] show ?thesis
    by (simp add: rr_idle_eq rr_idled_fields)
next
  case False
  with assms(1) show ?thesis by (simp add: rr_idle_eq)
qed

lemma rr_queue_inv_run:
  assumes inv: "rr_queue_inv s" and ne: "ready_queue s \<noteq> []"
  shows "\<exists>s'. rr_run tq s = Inr s' \<and> rr_queue_inv s'"
proof -
  obtain c rest where q: "ready_queue s = c # rest" using ne by (cases "ready_queue s") auto
  let ?i = "process_index s" and ?pcs = "processes_copy s"
  define p where "p = ?pcs ! c"
  define e where "e = execute_time tq s"
  have e: "e = min tq (remaining_time p)" by (simp add: e_def p_def execute_time_def q)
  from rr_run_char[OF inv q, of tq] obtain k s' where s':
    "rr_run tq s = Inr s'" "?i \<le> k" "k \<le> length ?pcs" "process_index s' = k"
    and br: "if 0 < remaining_time p - e
          then ready_queue s' = rest @ [?i..<k] @ [c]
             \<and> processes_copy s' = ?pcs[c := p\<lparr>remaining_time := remaining_time p - e\<rparr>]
             \<and> completed_count s' = completed_count s
          else ready_queue s' = rest @ [?i..<k]
             \<and> processes_copy s' = ?pcs[c := p\<lparr>remaining_time := remaining_time p - e,
                    finish_time := current_time s + e,
                    turnaround_time := current_time s + e - arrival_time p,
                    waiting_time := current_time s + e - arrival_time p - burst_time p\<rparr>]
             \<and> completed_count s' = completed_count s + 1"
    unfolding p_def e_def by blast
  note d = rr_queue_invD[OF inv]
  from d(3) q have ci: "c < ?i" and rest: "set rest \<subseteq> {..<?i}" by simp_all
  from d(2) q have cr: "c \<notin> set rest" and dr: "distinct rest" by simp_all
  from d(4) q have cnt: "completed_count s + Suc (length rest) = ?i" by simp
  have cn: "c < length ?pcs" using ci d(1) by simp
  have old: "\<And>i. i < ?i \<Longrightarrow> i \<noteq> c \<Longrightarrow> i \<notin> set rest \<Longrightarrow> remaining_time (?pcs ! i) = 0"
    using d(5) q by simp
  show ?thesis
  proof (cases "0 < remaining_time p - e")
    case True
    with br have f: "ready_queue s' = rest @ [?i..<k] @ [c]"
      "processes_copy s' = ?pcs[c := p\<lparr>remaining_time := remaining_time p - e\<rparr>]"
      "completed_count s' = completed_count s" by simp_all
    have 1: "process_index s' \<le> length (processes_copy s')" using s'(3,4) f(2) by simp
    have 2: "distinct (ready_queue s')" using f(1) dr cr ci rest by auto
    have 3: "set (ready_queue s') \<subseteq> {..<process_index s'}"
      using f(1) s'(2,4) ci rest by auto
    have 4: "completed_count s' + length (ready_queue s') = process_index s'"
      using f(1,3) s'(2,4) cnt by simp
    have 5: "\<forall>i<process_index s'. i \<notin> set (ready_queue s')
             \<longrightarrow> remaining_time (processes_copy s' ! i) = 0"
    proof (intro allI impI)
      fix i assume i: "i < process_index s'" "i \<notin> set (ready_queue s')"
      then have "i < ?i" "i \<noteq> c" "i \<notin> set rest" using f(1) s'(4) by auto
      with old[of i] show "remaining_time (processes_copy s' ! i) = 0" by (simp add: f(2))
    qed
    from 1 2 3 4 5 have "rr_queue_inv s'" unfolding rr_queue_inv_def by fast
    with s'(1) show ?thesis by blast
  next
    case False
    with br have f: "ready_queue s' = rest @ [?i..<k]"
      "processes_copy s' = ?pcs[c := p\<lparr>remaining_time := remaining_time p - e,
                    finish_time := current_time s + e,
                    turnaround_time := current_time s + e - arrival_time p,
                    waiting_time := current_time s + e - arrival_time p - burst_time p\<rparr>]"
      "completed_count s' = completed_count s + 1" by simp_all
    from False e have z: "remaining_time p - e = 0" by (auto simp: min_def split: if_splits)
    have 1: "process_index s' \<le> length (processes_copy s')" using s'(3,4) f(2) by simp
    have 2: "distinct (ready_queue s')" using f(1) dr rest by auto
    have 3: "set (ready_queue s') \<subseteq> {..<process_index s'}"
      using f(1) s'(2,4) rest by auto
    have 4: "completed_count s' + length (ready_queue s') = process_index s'"
      using f(1,3) s'(2,4) cnt by simp
    have 5: "\<forall>i<process_index s'. i \<notin> set (ready_queue s')
             \<longrightarrow> remaining_time (processes_copy s' ! i) = 0"
    proof (intro allI impI)
      fix i assume i: "i < process_index s'" "i \<notin> set (ready_queue s')"
      then have ii: "i < ?i" "i \<notin> set rest" using f(1) s'(4) by auto
      show "remaining_time (processes_copy s' ! i) = 0"
      proof (cases "i = c")
        case True
        with cn z show ?thesis by (simp add: f(2))
      next
        case False
        with old[of i] ii show ?thesis by (simp add: f(2))
      qed
    qed
    from 1 2 3 4 5 have "rr_queue_inv s'" unfolding rr_queue_inv_def by fast
    with s'(1) show ?thesis by blast
  qed
qed

lemma rr_queue_inv_body:
  assumes "rr_queue_inv s" "completed_count s < length (processes_copy s)"
  shows "\<exists>s'. rr_body tq s = Inr s' \<and> rr_queue_inv s'"
proof -
  from rr_idle_ok[OF assms] obtain s1 where s1: "rr_idle s = Inr s1" "rr_queue_inv s1"
    "ready_queue s1 \<noteq> []" by blast
  from rr_queue_inv_run[OF s1(2,3), of tq] s1(1) show ?thesis by (simp add: rr_body_def)
qed

lemma sort_key_Nil_iff: "sort_key f xs = [] \<longleftrightarrow> xs = []"
  using length_sort[of f xs] by (simp only: length_0_conv[symmetric])

lemma rr_queue_inv_init: "rr_queue_inv (rr_init ps)"
  by (cases ps) (simp_all add: rr_init_def rr_queue_inv_def Let_def sort_key_Nil_iff)

lemma rr_reach_queue_inv: "rr_reach tq ps s \<Longrightarrow> rr_queue_inv s"
proof (induction rule: rr_reach.induct)
  case (rr_start tq ps)
  show ?case by (rule rr_queue_inv_init)
next
  case (rr_pass tq ps s s')
  from rr_queue_inv_body[OF rr_pass.IH rr_pass.hyps(2), of tq] rr_pass.hyps(3)
  show ?case by simp
qed

section \<open>Evaluation, and the empty list\<close>

lemma rr_loop_done:
  "\<not> completed_count s < length (processes_copy s) \<Longrightarrow> rr_loop tq fuel s = Some (Inr s)"
  by (cases fuel) simp_all

text \<open>
  A quotient of magnitude below \<open>2 ^ 1000\<close> is far from the overflow; so is every
  quotient whose dividend is.
\<close>

lemma float_overflow_large: "2 ^ 1000 < float_overflow"
  by (simp add: float_overflow_def)

lemma true_div_small:
  assumes "b \<noteq> 0" "\<bar>a\<bar> < 2 ^ 1000"
  shows "true_div a b = Inr (of_int a / of_int b)"
proof -
  have "1 \<le> \<bar>b\<bar>" using assms(1) by simp
  then have b: "(1::rat) \<le> \<bar>of_int b\<bar>" by (metis of_int_1 of_int_abs of_int_le_iff)
  have "\<bar>(of_int a :: rat) / of_int b\<bar> = \<bar>of_int a\<bar> / \<bar>of_int b\<bar>" by simp
  also have "\<dots> \<le> \<bar>of_int a\<bar> / 1"
    by (rule divide_left_mono) (use b in simp_all)
  also have "\<dots> = of_int \<bar>a\<bar>" by simp
  also have "\<dots> < 2 ^ 1000"
  proof -
    from assms(2) have "(of_int \<bar>a\<bar> :: rat) < of_int (2 ^ 1000)" by (simp only: of_int_less_iff)
    then show ?thesis by simp
  qed
  finally have "\<bar>(of_int a :: rat) / of_int b\<bar> < float_overflow"
    using float_overflow_large by simp
  with assms(1) show ?thesis by (simp add: true_div_def)
qed

lemma get_results_dict_Nil: "get_results_dict [] [] 0 0 = Inr empty_results"
  by (simp add: get_results_dict_def empty_results_def)

lemmas rr_eval = schedule_rr_def rr_init_def rr_body_def rr_idle_def rr_run_def admit.simps
  Process_def copy_def GanttEntry_def get_results_dict_def true_div_small to_dict_def Let_def
  gantt_of_def

lemma schedule_fcfs_Nil: "schedule_fcfs [] = ([], Inr empty_results)"
  by (simp add: schedule_fcfs_def timeline_init_def get_results_dict_Nil)

lemma schedule_sjf_Nil: "schedule_sjf fuel [] = Some (Inr ([], Inr empty_results))"
  by (simp add: schedule_sjf_def np_return_def np_init_def np_loop_done get_results_dict_Nil)

lemma schedule_priority_Nil: "schedule_priority fuel [] = Some (Inr ([], Inr empty_results))"
  by (simp add: schedule_priority_def np_return_def np_init_def np_loop_done
      get_results_dict_Nil)

lemma schedule_rr_Nil: "schedule_rr fuel [] tq = Some (Inr ([], Inr empty_results))"
  by (simp add: schedule_rr_def rr_init_def rr_loop_done Let_def get_results_dict_Nil)

section \<open>Round Robin on a valid input\<close>

lemma rr_invD:
  assumes "rr_inv pc0 s"
  shows "rr_queue_inv s"
    and "length (processes_copy s) = length pc0"
    and "\<And>i. i < length pc0 \<Longrightarrow> descriptor (processes_copy s ! i) = descriptor (pc0 ! i)"
    and "\<And>i. i < length pc0 \<Longrightarrow> i \<in> set (ready_queue s) \<or> process_index s \<le> i
             \<Longrightarrow> 0 < remaining_time (processes_copy s ! i)"
    and "\<And>i. i < process_index s \<Longrightarrow> i \<notin> set (ready_queue s)
             \<Longrightarrow> metrics_ok (processes_copy s ! i)"
    and "\<And>i. i < length pc0 \<Longrightarrow> process_index s \<le> i
             \<Longrightarrow> remaining_time (processes_copy s ! i) = burst_time (processes_copy s ! i)"
    and "\<And>i. i \<in> set (ready_queue s) \<Longrightarrow>
             arrival_time (processes_copy s ! i) + burst_time (processes_copy s ! i)
               - remaining_time (processes_copy s ! i) \<le> current_time s"
    and "chain 0 (gantt s) (current_time s)"
    and "\<And>i. ready_queue s = [] \<Longrightarrow> i < length pc0 \<Longrightarrow> process_index s \<le> i
               \<Longrightarrow> current_time s < arrival_time (processes_copy s ! i)"
    and "current_time s - total_idle_time s
           = sum_list (map (\<lambda>p. burst_time p - remaining_time p) (processes_copy s))"
  using assms unfolding rr_inv_def by blast+

lemma rr_invI:
  assumes "rr_queue_inv s"
    and "length (processes_copy s) = length pc0"
    and "\<And>i. i < length pc0 \<Longrightarrow> descriptor (processes_copy s ! i) = descriptor (pc0 ! i)"
    and "\<And>i. i < length pc0 \<Longrightarrow> i \<in> set (ready_queue s) \<or> process_index s \<le> i
             \<Longrightarrow> 0 < remaining_time (processes_copy s ! i)"
    and "\<And>i. i < process_index s \<Longrightarrow> i \<notin> set (ready_queue s)
             \<Longrightarrow> metrics_ok (processes_copy s ! i)"
    and "\<And>i. i < length pc0 \<Longrightarrow> process_index s \<le> i
             \<Longrightarrow> remaining_time (processes_copy s ! i) = burst_time (processes_copy s ! i)"
    and "\<And>i. i \<in> set (ready_queue s) \<Longrightarrow>
             arrival_time (processes_copy s ! i) + burst_time (processes_copy s ! i)
               - remaining_time (processes_copy s ! i) \<le> current_time s"
    and "chain 0 (gantt s) (current_time s)"
    and "\<And>i. ready_queue s = [] \<Longrightarrow> i < length pc0 \<Longrightarrow> process_index s \<le> i
               \<Longrightarrow> current_time s < arrival_time (processes_copy s ! i)"
    and "current_time s - total_idle_time s
           = sum_list (map (\<lambda>p. burst_time p - remaining_time p) (processes_copy s))"
  shows "rr_inv pc0 s"
  unfolding rr_inv_def using assms by blast

lemma sum_list_map_update:
  fixes f :: "'a \<Rightarrow> 'b::comm_monoid_add"
  shows "k < length xs \<Longrightarrow>
     sum_list (map f (xs[k := y])) + f (xs ! k) = sum_list (map f xs) + f y"
proof (induction xs arbitrary: k)
  case Nil
  then show ?case by simp
next
  case (Cons x xs)
  show ?case
  proof (cases k)
    case 0
    then show ?thesis by (simp add: ac_simps)
  next
    case (Suc j)
    with Cons.prems have "j < length xs" by simp
    from Cons.IH[OF this] Suc show ?thesis by (simp add: ac_simps)
  qed
qed

lemma rr_inv_idled:
  assumes inv: "rr_inv pc0 s" and q: "ready_queue s = []"
    and lt: "process_index s < length (processes_copy s)"
  shows "rr_inv pc0 (rr_idled s)"
proof (rule rr_invI)
  note d = rr_invD[OF inv]
  let ?i = "process_index s"
  have gap: "current_time s < arrival_time (processes_copy s ! ?i)"
    using d(9)[OF q, of ?i] lt d(2) by simp
  show "rr_queue_inv (rr_idled s)" by (rule rr_queue_inv_idled[OF d(1) q lt])
  show "length (processes_copy (rr_idled s)) = length pc0" by (simp add: rr_idled_fields d(2))
  show "\<And>i. i < length pc0 \<Longrightarrow> descriptor (processes_copy (rr_idled s) ! i) = descriptor (pc0 ! i)"
    by (simp add: rr_idled_fields d(3))
  show "\<And>i. i < length pc0 \<Longrightarrow> i \<in> set (ready_queue (rr_idled s)) \<or> process_index (rr_idled s) \<le> i
             \<Longrightarrow> 0 < remaining_time (processes_copy (rr_idled s) ! i)"
    using d(4) q by (auto simp: rr_idled_fields)
  show "\<And>i. i < process_index (rr_idled s) \<Longrightarrow> i \<notin> set (ready_queue (rr_idled s))
             \<Longrightarrow> metrics_ok (processes_copy (rr_idled s) ! i)"
    using d(5) q by (auto simp: rr_idled_fields less_Suc_eq)
  show "\<And>i. i < length pc0 \<Longrightarrow> process_index (rr_idled s) \<le> i
             \<Longrightarrow> remaining_time (processes_copy (rr_idled s) ! i) = burst_time (processes_copy (rr_idled s) ! i)"
    using d(6) by (simp add: rr_idled_fields)
  show "\<And>i. i \<in> set (ready_queue (rr_idled s)) \<Longrightarrow>
             arrival_time (processes_copy (rr_idled s) ! i) + burst_time (processes_copy (rr_idled s) ! i)
               - remaining_time (processes_copy (rr_idled s) ! i) \<le> current_time (rr_idled s)"
    using d(6)[of ?i] lt d(2) q by (simp add: rr_idled_fields)
  show "chain 0 (gantt (rr_idled s)) (current_time (rr_idled s))"
    using d(8) gap by (simp add: rr_idled_fields chain_snoc)
  show "\<And>i. ready_queue (rr_idled s) = [] \<Longrightarrow> i < length pc0 \<Longrightarrow> process_index (rr_idled s) \<le> i
               \<Longrightarrow> current_time (rr_idled s) < arrival_time (processes_copy (rr_idled s) ! i)"
    by (simp add: rr_idled_fields)
  show "current_time (rr_idled s) - total_idle_time (rr_idled s)
           = sum_list (map (\<lambda>p. burst_time p - remaining_time p) (processes_copy (rr_idled s)))"
    using d(10) by (simp add: rr_idled_fields)
qed

lemma rr_need_idled: "rr_need tq (rr_idled s) = rr_need tq s"
  by (simp add: rr_need_def rr_idled_fields)

lemma quanta_shift:
  fixes r tq :: int
  assumes "0 < tq"
  shows "(r + tq - 1) div tq = (r - 1) div tq + 1"
proof -
  have eq: "r + tq - 1 = (r - 1) + tq" by simp
  have "((r - 1) + tq) div tq = (r - 1) div tq + 1"
    using assms by (intro div_add_self2) simp
  then show ?thesis by (simp only: eq)
qed

lemma quanta_step:
  fixes r tq :: int
  assumes "0 < tq" "0 < r"
  shows "nat ((r - min tq r + tq - 1) div tq) + 1 = nat ((r + tq - 1) div tq)"
proof (cases "r \<le> tq")
  case True
  then have "min tq r = r" by simp
  moreover have "(tq - 1) div tq = 0" using assms(1) by (simp add: div_pos_pos_trivial)
  moreover have "(r - 1) div tq = 0" using assms True by (simp add: div_pos_pos_trivial)
  ultimately show ?thesis using quanta_shift[OF assms(1), of r] by simp
next
  case False
  then have m: "min tq r = tq" by simp
  have "0 \<le> (r - 1) div tq" using assms by (simp add: pos_imp_zdiv_nonneg_iff)
  then show ?thesis using m quanta_shift[OF assms(1), of r] by simp
qed

lemma rr_inv_run:
  fixes tq :: int
  assumes srt: "sorted (map arrival_time pc0)" and tq: "0 < tq"
    and inv: "rr_inv pc0 s" and ne: "ready_queue s \<noteq> []"
  shows "\<exists>s'. rr_run tq s = Inr s' \<and> rr_inv pc0 s' \<and> rr_need tq s' + 1 = rr_need tq s"
proof -
  obtain c rest where q: "ready_queue s = c # rest" using ne by (cases "ready_queue s") auto
  let ?i = "process_index s" and ?pcs = "processes_copy s" and ?n = "length pc0"
  let ?ct = "current_time s"
  define p where "p = ?pcs ! c"
  define e where "e = execute_time tq s"
  note d = rr_invD[OF inv]
  note dq = rr_queue_invD[OF d(1)]
  have e: "e = min tq (remaining_time p)" by (simp add: e_def p_def execute_time_def q)
  from rr_run_char[OF d(1) q, of tq] obtain k s' where s':
    "rr_run tq s = Inr s'" "?i \<le> k" "k \<le> length ?pcs" "process_index s' = k"
    and g': "gantt s' = gantt s @ [GanttEntry (process_id p) ?ct (?ct + e)]"
    and t': "current_time s' = ?ct + e" "total_idle_time s' = total_idle_time s"
    and a1: "\<And>j. ?i \<le> j \<Longrightarrow> j < k \<Longrightarrow> arrival_time (?pcs ! j) \<le> ?ct + e"
    and a2: "k < length ?pcs \<Longrightarrow> ?ct + e < arrival_time (?pcs ! k)"
    and br: "if 0 < remaining_time p - e
          then ready_queue s' = rest @ [?i..<k] @ [c]
             \<and> processes_copy s' = ?pcs[c := p\<lparr>remaining_time := remaining_time p - e\<rparr>]
             \<and> completed_count s' = completed_count s
          else ready_queue s' = rest @ [?i..<k]
             \<and> processes_copy s' = ?pcs[c := p\<lparr>remaining_time := remaining_time p - e,
                    finish_time := ?ct + e,
                    turnaround_time := ?ct + e - arrival_time p,
                    waiting_time := ?ct + e - arrival_time p - burst_time p\<rparr>]
             \<and> completed_count s' = completed_count s + 1"
    unfolding p_def e_def by blast
  from rr_queue_inv_run[OF d(1) ne, of tq] s'(1) have qi': "rr_queue_inv s'" by simp
  from dq(3) q have ci: "c < ?i" and rest: "set rest \<subseteq> {..<?i}" by simp_all
  from dq(2) q have cr: "c \<notin> set rest" by simp
  have cn: "c < ?n" using ci dq(1) d(2) by simp
  have kn: "k \<le> ?n" using s'(3) d(2) by simp
  have rp: "0 < remaining_time p" using d(4)[of c] cn q by (simp add: p_def)
  have e_pos: "0 < e" and e_le: "e \<le> remaining_time p" using rp tq e by simp_all
  have wait_c: "arrival_time p + burst_time p - remaining_time p \<le> ?ct"
    using d(7)[of c] q by (simp add: p_def)
  define p' where "p' = processes_copy s' ! c"
  have len': "length (processes_copy s') = ?n" using br d(2) by (simp split: if_splits)
  have other: "\<And>i. i \<noteq> c \<Longrightarrow> processes_copy s' ! i = ?pcs ! i"
    using br by (simp split: if_splits)
  have p'_desc: "descriptor p' = descriptor p" "remaining_time p' = remaining_time p - e"
    using br cn d(2) by (simp_all add: p'_def descriptor_def split: if_splits)
  have p'_met: "\<not> 0 < remaining_time p - e \<Longrightarrow> metrics_ok p'"
  proof -
    assume fin: "\<not> 0 < remaining_time p - e"
    with e_le have "e = remaining_time p" by simp
    with wait_c have "0 \<le> ?ct + e - arrival_time p - burst_time p" by simp
    with fin br cn d(2) show "metrics_ok p'" by (simp add: p'_def metrics_ok_def)
  qed
  have upd: "processes_copy s' = ?pcs[c := p']"
    using br cn d(2) by (simp add: p'_def split: if_splits)
  have set': "set (ready_queue s') = set rest \<union> {?i..<k} \<union> (if 0 < remaining_time p - e then {c} else {})"
    using br by (auto split: if_splits)
  have arr: "\<And>i. i < ?n \<Longrightarrow> arrival_time (processes_copy s' ! i) = arrival_time (?pcs ! i)"
  proof -
    fix i assume "i < ?n"
    show "arrival_time (processes_copy s' ! i) = arrival_time (?pcs ! i)"
    proof (cases "i = c")
      case True
      with p'_desc(1) show ?thesis by (simp add: p'_def p_def descriptor_def)
    next
      case False
      then show ?thesis by (simp add: other)
    qed
  qed
  have arr0: "\<And>i. i < ?n \<Longrightarrow> arrival_time (?pcs ! i) = arrival_time (pc0 ! i)"
    using d(3) by (simp add: descriptor_def)
  have "rr_inv pc0 s'"
  proof (rule rr_invI)
    show "rr_queue_inv s'" by (rule qi')
    show "length (processes_copy s') = ?n" by (rule len')
    show "descriptor (processes_copy s' ! i) = descriptor (pc0 ! i)" if "i < ?n" for i
    proof (cases "i = c")
      case True
      with p'_desc(1) d(3)[OF cn] show ?thesis by (simp add: p'_def p_def)
    next
      case False
      with d(3)[OF that] show ?thesis by (simp add: other)
    qed
    show "0 < remaining_time (processes_copy s' ! i)"
      if "i < ?n" "i \<in> set (ready_queue s') \<or> process_index s' \<le> i" for i
    proof (cases "i = c")
      case True
      with that(2) ci s'(2,4) cr have "0 < remaining_time p - e"
        by (auto simp: set' split: if_splits)
      with True p'_desc(2) show ?thesis by (simp add: p'_def)
    next
      case False
      from that(2) have "i \<in> set (ready_queue s) \<or> ?i \<le> i"
        using False s'(2,4) by (auto simp: set' q split: if_splits)
      from d(4)[OF that(1) this] False show ?thesis by (simp add: other)
    qed
    show "metrics_ok (processes_copy s' ! i)"
      if "i < process_index s'" "i \<notin> set (ready_queue s')" for i
    proof (cases "i = c")
      case True
      with that(2) have "\<not> 0 < remaining_time p - e" by (auto simp: set' split: if_splits)
      from p'_met[OF this] True show ?thesis by (simp add: p'_def)
    next
      case False
      from that have "i < ?i" "i \<notin> set (ready_queue s)"
        using False s'(4) by (auto simp: set' q)
      from d(5)[OF this] False show ?thesis by (simp add: other)
    qed
    show "remaining_time (processes_copy s' ! i) = burst_time (processes_copy s' ! i)"
      if "i < ?n" "process_index s' \<le> i" for i
    proof -
      from that(2) s'(2,4) ci have "?i \<le> i" "i \<noteq> c" by simp_all
      with d(6)[OF that(1)] show ?thesis by (simp add: other)
    qed
    show "arrival_time (processes_copy s' ! i) + burst_time (processes_copy s' ! i)
               - remaining_time (processes_copy s' ! i) \<le> current_time s'"
      if "i \<in> set (ready_queue s')" for i
    proof (cases "i = c")
      case True
      have "arrival_time p' = arrival_time p" "burst_time p' = burst_time p"
        using p'_desc(1) by (simp_all add: descriptor_def)
      with wait_c p'_desc(2) True show ?thesis by (simp add: p'_def t')
    next
      case False
      with that have "i \<in> set rest \<or> (?i \<le> i \<and> i < k)" by (auto simp: set' split: if_splits)
      then show ?thesis
      proof
        assume "i \<in> set rest"
        then have "i \<in> set (ready_queue s)" by (simp add: q)
        from d(7)[OF this] False e_pos show ?thesis by (simp add: other t')
      next
        assume i: "?i \<le> i \<and> i < k"
        with kn have "i < ?n" by simp
        from d(6)[OF this] i a1[of i] False show ?thesis by (simp add: other t')
      qed
    qed
    show "chain 0 (gantt s') (current_time s')"
      using d(8) e_pos by (simp add: g' t' chain_snoc)
    show "current_time s' < arrival_time (processes_copy s' ! i)"
      if "ready_queue s' = []" "i < ?n" "process_index s' \<le> i" for i
    proof -
      from that(2,3) s'(4) have k: "k < ?n" "k \<le> i" by simp_all
      have "arrival_time (pc0 ! k) \<le> arrival_time (pc0 ! i)"
        using srt k that(2) by (simp add: sorted_iff_nth_mono)
      with a2 k(1) d(2) arr0[OF k(1)] arr0[OF that(2)] arr[OF that(2)]
      show ?thesis by (simp add: t')
    qed
    show "current_time s' - total_idle_time s'
           = sum_list (map (\<lambda>p. burst_time p - remaining_time p) (processes_copy s'))"
    proof -
      have "burst_time p' = burst_time p" using p'_desc(1) by (simp add: descriptor_def)
      with sum_list_map_update[of c ?pcs "\<lambda>p. burst_time p - remaining_time p" p']
        cn d(2) p'_desc(2)
      have "sum_list (map (\<lambda>p. burst_time p - remaining_time p) (processes_copy s'))
              = sum_list (map (\<lambda>p. burst_time p - remaining_time p) ?pcs) + e"
        by (simp add: upd p_def)
      with d(10) show ?thesis by (simp add: t')
    qed
  qed
  moreover have "rr_need tq s' + 1 = rr_need tq s"
  proof -
    have "quanta tq p' + 1 = quanta tq p"
      using quanta_step[OF tq rp] p'_desc(2) by (simp add: quanta_def e)
    with sum_list_map_update[of c ?pcs "quanta tq" p'] cn d(2)
    show ?thesis by (simp add: rr_need_def upd p_def)
  qed
  ultimately show ?thesis using s'(1) by blast
qed

lemma rr_inv_body:
  fixes tq :: int
  assumes srt: "sorted (map arrival_time pc0)" and tq: "0 < tq"
    and inv: "rr_inv pc0 s" and guard: "completed_count s < length (processes_copy s)"
  shows "\<exists>s'. rr_body tq s = Inr s' \<and> rr_inv pc0 s' \<and> rr_need tq s' + 1 = rr_need tq s"
proof -
  from rr_idle_ok[OF rr_invD(1)[OF inv] guard] obtain s1 where s1: "rr_idle s = Inr s1"
    "ready_queue s1 \<noteq> []"
    "s1 = s \<and> ready_queue s \<noteq> []
         \<or> s1 = rr_idled s \<and> ready_queue s = [] \<and> process_index s < length (processes_copy s)"
    by blast
  from s1(3) have "rr_inv pc0 s1 \<and> rr_need tq s1 = rr_need tq s"
    using inv rr_inv_idled[OF inv] by (auto simp: rr_need_idled)
  with rr_inv_run[OF srt tq _ s1(2)] s1(1) show ?thesis by (simp add: rr_body_def)
qed

lemma sum_list_sort_key:
  fixes g :: "'a \<Rightarrow> 'b::comm_monoid_add"
  shows "sum_list (map g (sort_key f xs)) = sum_list (map g xs)"
proof -
  have "mset (map g (sort_key f xs)) = mset (map g xs)" by simp
  then have "sum_mset (mset (map g (sort_key f xs))) = sum_mset (mset (map g xs))"
    by (simp only:)
  then show ?thesis by (simp only: sum_mset_sum_list)
qed

lemma sum_list_zero: "(\<And>x. x \<in> set xs \<Longrightarrow> f x = (0::int)) \<Longrightarrow> sum_list (map f xs) = 0"
  by (induction xs) simp_all

lemma copy_fields:
  "descriptor (copy p) = descriptor p" "remaining_time (copy p) = remaining_time p"
  "arrival_time (copy p) = arrival_time p" "burst_time (copy p) = burst_time p"
  "quanta tq (copy p) = quanta tq p"
  by (simp_all add: copy_def Process_def descriptor_def quanta_def)

lemma sorted_copy_props:
  "sorted (map arrival_time (sorted_copy ps))"
  "length (sorted_copy ps) = length ps"
  "mset (map descriptor (sorted_copy ps)) = mset (map descriptor ps)"
  "sum_list (map burst_time (sorted_copy ps)) = sum_list (map burst_time ps)"
  "sum_list (map (quanta tq) (sorted_copy ps)) = sum_list (map (quanta tq) ps)"
proof -
  show "sorted (map arrival_time (sorted_copy ps))" by (simp add: sorted_copy_def)
  show "length (sorted_copy ps) = length ps" by (simp add: sorted_copy_def)
  show "mset (map descriptor (sorted_copy ps)) = mset (map descriptor ps)"
    by (simp add: sorted_copy_def multiset.map_comp comp_def copy_fields)
  show "sum_list (map burst_time (sorted_copy ps)) = sum_list (map burst_time ps)"
    by (simp add: sorted_copy_def sum_list_sort_key comp_def copy_fields)
  show "sum_list (map (quanta tq) (sorted_copy ps)) = sum_list (map (quanta tq) ps)"
    by (simp add: sorted_copy_def sum_list_sort_key comp_def copy_fields)
qed

lemma sorted_copy_valid:
  assumes "valid_input ps" "p \<in> set (sorted_copy ps)"
  shows "0 \<le> arrival_time p" "0 < burst_time p" "remaining_time p = burst_time p"
proof -
  from assms(2) obtain p0 where "p0 \<in> set ps" "p = copy p0" by (auto simp: sorted_copy_def)
  with assms(1) show "0 \<le> arrival_time p" "0 < burst_time p" "remaining_time p = burst_time p"
    by (auto simp: valid_input_def list_all_iff copy_fields)
qed

lemma rr_init_eq:
  "rr_init ps =
     (if sorted_copy ps \<noteq> [] \<and> arrival_time (sorted_copy ps ! 0) \<le> 0
      then \<lparr>gantt = [], current_time = 0, total_idle_time = 0,
            processes_copy = sorted_copy ps, ready_queue = [0], completed_count = 0,
            process_index = 1\<rparr>
      else \<lparr>gantt = [], current_time = 0, total_idle_time = 0,
            processes_copy = sorted_copy ps, ready_queue = [], completed_count = 0,
            process_index = 0\<rparr>)"
  by (simp add: rr_init_def sorted_copy_def Let_def)

lemma rr_init_fields:
  "processes_copy (rr_init ps) = sorted_copy ps" "gantt (rr_init ps) = []"
  "current_time (rr_init ps) = 0" "total_idle_time (rr_init ps) = 0"
  "completed_count (rr_init ps) = 0"
  "ready_queue (rr_init ps) = (if sorted_copy ps \<noteq> [] \<and> arrival_time (sorted_copy ps ! 0) \<le> 0 then [0] else [])"
  "process_index (rr_init ps) = (if sorted_copy ps \<noteq> [] \<and> arrival_time (sorted_copy ps ! 0) \<le> 0 then 1 else 0)"
  by (simp_all add: rr_init_eq)

lemma rr_inv_init:
  assumes v: "valid_input ps"
  shows "rr_inv (sorted_copy ps) (rr_init ps)"
proof (rule rr_invI)
  let ?pc = "sorted_copy ps"
  note val = sorted_copy_valid[OF v]
  show "rr_queue_inv (rr_init ps)" by (rule rr_queue_inv_init)
  show "length (processes_copy (rr_init ps)) = length ?pc" by (simp add: rr_init_fields)
  show "\<And>i. i < length ?pc \<Longrightarrow> descriptor (processes_copy (rr_init ps) ! i) = descriptor (?pc ! i)"
    by (simp add: rr_init_fields)
  show "\<And>i. i < length ?pc \<Longrightarrow> i \<in> set (ready_queue (rr_init ps)) \<or> process_index (rr_init ps) \<le> i
             \<Longrightarrow> 0 < remaining_time (processes_copy (rr_init ps) ! i)"
    using val(2,3) by (simp add: rr_init_fields(1))
  show "\<And>i. i < process_index (rr_init ps) \<Longrightarrow> i \<notin> set (ready_queue (rr_init ps))
             \<Longrightarrow> metrics_ok (processes_copy (rr_init ps) ! i)"
    by (simp add: rr_init_fields split: if_splits)
  show "\<And>i. i < length ?pc \<Longrightarrow> process_index (rr_init ps) \<le> i
             \<Longrightarrow> remaining_time (processes_copy (rr_init ps) ! i) = burst_time (processes_copy (rr_init ps) ! i)"
    using val(3) by (simp add: rr_init_fields(1))
  show "\<And>i. i \<in> set (ready_queue (rr_init ps)) \<Longrightarrow>
             arrival_time (processes_copy (rr_init ps) ! i) + burst_time (processes_copy (rr_init ps) ! i)
               - remaining_time (processes_copy (rr_init ps) ! i) \<le> current_time (rr_init ps)"
    using val(3)[of "?pc ! 0"] by (simp add: rr_init_fields split: if_splits)
  show "chain 0 (gantt (rr_init ps)) (current_time (rr_init ps))" by (simp add: rr_init_fields)
  show "current_time (rr_init ps) < arrival_time (processes_copy (rr_init ps) ! i)"
    if "ready_queue (rr_init ps) = []" "i < length ?pc" "process_index (rr_init ps) \<le> i" for i
  proof -
    from that(1,2) have "0 < arrival_time (?pc ! 0)"
      by (auto simp: rr_init_fields split: if_splits)
    moreover have "arrival_time (?pc ! 0) \<le> arrival_time (?pc ! i)"
      using sorted_copy_props(1)[of ps] that(2) by (simp add: sorted_iff_nth_mono)
    ultimately show ?thesis by (simp add: rr_init_fields)
  qed
  show "current_time (rr_init ps) - total_idle_time (rr_init ps)
           = sum_list (map (\<lambda>p. burst_time p - remaining_time p) (processes_copy (rr_init ps)))"
    using val(3) by (simp add: rr_init_fields sum_list_zero)
qed

lemma rr_completed_le:
  assumes "rr_queue_inv s"
  shows "completed_count s \<le> length (processes_copy s)"
  using rr_queue_invD(1,4)[OF assms] by simp

lemma rr_need_zero:
  fixes tq :: int
  assumes tq: "0 < tq" and inv: "rr_inv pc0 s" and z: "rr_need tq s = 0"
  shows "\<not> completed_count s < length (processes_copy s)"
proof
  assume guard: "completed_count s < length (processes_copy s)"
  note d = rr_invD[OF inv]
  note dq = rr_queue_invD[OF d(1)]
  from guard dq(1,4) have "ready_queue s \<noteq> [] \<or> process_index s < length (processes_copy s)"
    by auto
  then obtain i where i: "i < length pc0" "i \<in> set (ready_queue s) \<or> process_index s \<le> i"
  proof
    assume "ready_queue s \<noteq> []"
    then obtain c where c: "c \<in> set (ready_queue s)" by (cases "ready_queue s") auto
    with dq(1,3) d(2) have "c < length pc0" by auto
    with c that show ?thesis by blast
  next
    assume "process_index s < length (processes_copy s)"
    with d(2) that[of "process_index s"] show ?thesis by simp
  qed
  from d(4)[OF i] have r: "0 < remaining_time (processes_copy s ! i)" .
  have "tq \<le> remaining_time (processes_copy s ! i) + tq - 1" using r by simp
  then have "0 < (remaining_time (processes_copy s ! i) + tq - 1) div tq"
    using tq by (simp only: pos_imp_zdiv_pos_iff)
  then have qp: "0 < quanta tq (processes_copy s ! i)" by (simp add: quanta_def)
  moreover have "processes_copy s ! i \<in> set (processes_copy s)" using i(1) d(2) by simp
  then have "quanta tq (processes_copy s ! i) \<in> set (map (quanta tq) (processes_copy s))"
    by simp
  then have "quanta tq (processes_copy s ! i) \<le> rr_need tq s"
    unfolding rr_need_def by (intro member_le_sum_list) simp_all
  ultimately show False using z by simp
qed

lemma rr_loop_terminates:
  fixes tq :: int
  assumes srt: "sorted (map arrival_time pc0)" and tq: "0 < tq"
  shows "rr_inv pc0 s \<Longrightarrow> rr_need tq s \<le> fuel \<Longrightarrow>
     \<exists>s'. rr_loop tq fuel s = Some (Inr s') \<and> rr_inv pc0 s'
        \<and> completed_count s' = length pc0"
proof (induction fuel arbitrary: s)
  case 0
  then have ng: "\<not> completed_count s < length (processes_copy s)"
    using rr_need_zero[OF tq "0.prems"(1)] by simp
  with rr_completed_le[OF rr_invD(1)[OF "0.prems"(1)]] rr_invD(2)[OF "0.prems"(1)]
  have "completed_count s = length pc0" by simp
  with ng "0.prems"(1) show ?case by (simp add: rr_loop_done)
next
  case (Suc fuel)
  note inv = Suc.prems(1)
  show ?case
  proof (cases "completed_count s < length (processes_copy s)")
    case False
    with rr_completed_le[OF rr_invD(1)[OF inv]] rr_invD(2)[OF inv]
    have "completed_count s = length pc0" by simp
    with False inv show ?thesis by (simp add: rr_loop_done)
  next
    case True
    from rr_inv_body[OF srt tq inv True] obtain s1 where s1:
      "rr_body tq s = Inr s1" "rr_inv pc0 s1" "rr_need tq s1 + 1 = rr_need tq s" by blast
    from s1(3) Suc.prems(2) have "rr_need tq s1 \<le> fuel" by simp
    from Suc.IH[OF s1(2) this] True s1(1) show ?thesis by simp
  qed
qed

lemma rr_final:
  assumes inv: "rr_inv pc0 s" and fin: "completed_count s = length pc0"
  shows "chain 0 (gantt s) (current_time s)"
    and "current_time s - total_idle_time s = sum_list (map burst_time pc0)"
    and "map descriptor (processes_copy s) = map descriptor pc0"
    and "list_all metrics_ok (processes_copy s)"
    and "list_all (\<lambda>p. remaining_time p = 0) (processes_copy s)"
proof -
  note d = rr_invD[OF inv]
  note dq = rr_queue_invD[OF d(1)]
  from fin dq(1,4) d(2) have "length (ready_queue s) = 0" by linarith
  with fin dq(4) have e: "ready_queue s = []" "process_index s = length pc0" by simp_all
  show "chain 0 (gantt s) (current_time s)" by (rule d(8))
  show desc: "map descriptor (processes_copy s) = map descriptor pc0"
    using d(2,3) by (simp add: list_eq_iff_nth_eq)
  show "list_all metrics_ok (processes_copy s)"
    unfolding list_all_length using d(5) d(2) e by simp
  show rem: "list_all (\<lambda>p. remaining_time p = 0) (processes_copy s)"
    unfolding list_all_length using dq(5) d(2) e by simp
  have "map burst_time (processes_copy s) = map (\<lambda>d. fst (snd (snd d))) (map descriptor (processes_copy s))"
    by (simp add: descriptor_def comp_def)
  also have "\<dots> = map burst_time pc0" by (simp add: desc) (simp add: descriptor_def comp_def)
  finally have b: "sum_list (map burst_time (processes_copy s)) = sum_list (map burst_time pc0)"
    by simp
  have "map (\<lambda>p. burst_time p - remaining_time p) (processes_copy s) = map burst_time (processes_copy s)"
    using rem by (simp add: list_all_iff)
  with d(10) b show "current_time s - total_idle_time s = sum_list (map burst_time pc0)" by simp
qed

lemma quanta_bound:
  fixes tq :: int
  assumes tq: "0 < tq" and b: "\<forall>p\<in>set ps. 0 < remaining_time p"
  shows "int (sum_list (map (quanta tq) ps))
           \<le> int (length ps) + sum_list (map remaining_time ps) div tq
         \<and> 0 \<le> sum_list (map remaining_time ps)"
  using b
proof (induction ps)
  case Nil
  then show ?case by simp
next
  case (Cons p ps)
  let ?r = "remaining_time p" and ?R = "sum_list (map remaining_time ps)"
  from Cons have IH: "int (sum_list (map (quanta tq) ps)) \<le> int (length ps) + ?R div tq"
    and R: "0 \<le> ?R" by simp_all
  from Cons.prems have r: "0 < ?r" by simp
  have "(?r + tq - 1) div tq = (?r - 1) div tq + 1" by (rule quanta_shift[OF tq])
  moreover have "0 \<le> (?r - 1) div tq" using r tq by (simp add: pos_imp_zdiv_nonneg_iff)
  ultimately have q: "int (quanta tq p) = (?r - 1) div tq + 1" by (simp add: quanta_def)
  have "(?r - 1) div tq \<le> ?r div tq" using tq by (intro zdiv_mono1) simp_all
  moreover have "?r div tq + ?R div tq \<le> (?r + ?R) div tq"
  proof -
    have "(?r + ?R) div tq = ?r div tq + ?R div tq + (?r mod tq + ?R mod tq) div tq"
      by (rule div_add1_eq)
    moreover have "0 \<le> (?r mod tq + ?R mod tq) div tq"
      using tq by (simp add: pos_imp_zdiv_nonneg_iff)
    ultimately show ?thesis by simp
  qed
  ultimately show ?case using IH q R r by simp
qed

lemma rr_need_init:
  fixes tq :: int
  assumes tq: "0 < tq" and v: "valid_input ps"
  shows "rr_need tq (rr_init ps) \<le> length ps + nat (sum_list (map burst_time ps) div tq)"
proof -
  have pos: "\<forall>p\<in>set ps. 0 < remaining_time p"
    using v by (auto simp: valid_input_def list_all_iff)
  have "map remaining_time ps = map burst_time ps"
    using v by (auto simp: valid_input_def list_all_iff)
  with quanta_bound[OF tq pos] have
    "int (sum_list (map (quanta tq) ps)) \<le> int (length ps) + sum_list (map burst_time ps) div tq"
    "0 \<le> sum_list (map burst_time ps)"
    by simp_all
  moreover have "0 \<le> sum_list (map burst_time ps) div tq"
    using calculation(2) tq by (simp add: pos_imp_zdiv_nonneg_iff)
  ultimately have "sum_list (map (quanta tq) ps) \<le> length ps + nat (sum_list (map burst_time ps) div tq)"
    by linarith
  then show ?thesis by (simp add: rr_need_def rr_init_fields sorted_copy_props)
qed

text \<open>What a run of Round Robin on a valid input with a positive quantum comes to.\<close>

lemma rr_loop_init:
  fixes tq :: int
  assumes tq: "0 < tq" and v: "valid_input ps"
    and fuel: "length ps + nat (sum_list (map burst_time ps) div tq) \<le> fuel"
  shows "\<exists>s'. rr_loop tq fuel (rr_init ps) = Some (Inr s') \<and> rr_inv (sorted_copy ps) s'
        \<and> completed_count s' = length ps"
proof -
  have "rr_need tq (rr_init ps) \<le> fuel" using rr_need_init[OF tq v] fuel by simp
  from rr_loop_terminates[OF sorted_copy_props(1) tq rr_inv_init[OF v] this]
  show ?thesis by (simp add: sorted_copy_props)
qed

section \<open>The results of the four policies on a valid input\<close>

lemma chain_props:
  "chain a g b \<Longrightarrow>
     a \<le> b \<and> (g \<noteq> [] \<longrightarrow> start_time (hd g) = a) \<and> contiguous g
     \<and> sorted (map start_time g) \<and> (\<forall>x\<in>set g. a \<le> start_time x)
     \<and> list_all (\<lambda>g. start_time g \<le> end_time g) g
     \<and> sum_list (map duration g) = b - a"
proof (induction g arbitrary: a)
  case Nil
  then show ?case by simp
next
  case (Cons x g)
  from Cons.prems have x: "start_time x = a" "a \<le> end_time x" and c: "chain (end_time x) g b"
    by simp_all
  note IH = Cons.IH[OF c]
  from IH have sm: "sum_list (map duration g) = b - end_time x" by blast
  have "contiguous (x # g)" using IH by (cases g) simp_all
  moreover have "sorted (map start_time (x # g))" using IH x by auto
  moreover have "duration x = end_time x - a" using x by (simp add: duration_def)
  then have "sum_list (map duration (x # g)) = b - a" using sm by simp
  moreover have "a \<le> b" using IH x by simp
  moreover have "\<forall>y\<in>set (x # g). a \<le> start_time y" using IH x by auto
  moreover have "list_all (\<lambda>g. start_time g \<le> end_time g) (x # g)" using IH x by simp
  moreover have "start_time (hd (x # g)) = a" using x by simp
  ultimately show ?case by blast
qed

lemma gantt_okI: "chain 0 g t \<Longrightarrow> gantt_ok g t"
  using chain_props[of 0 g t] by (simp add: gantt_ok_def)

lemma dict_descriptor_to_dict: "dict_descriptor (to_dict p) = descriptor p"
  by (simp add: dict_descriptor_def descriptor_def to_dict_def)

lemma dict_metrics_ok_to_dict: "dict_metrics_ok (to_dict p) = metrics_ok p"
  by (simp add: dict_metrics_ok_def metrics_ok_def to_dict_def)

text \<open>
  \<open>get_results_dict\<close> returns a dictionary with the entries it was handed, or raises
  \<open>OverflowError\<close>: its two guards keep the divisors from being zero.
\<close>

lemma true_div_cases:
  "b \<noteq> 0 \<Longrightarrow> true_div a b = Inl OverflowError \<or> (\<exists>q. true_div a b = Inr q)"
  by (simp add: true_div_def)

lemma get_results_dict_cases:
  "get_results_dict ps g t idle = Inl OverflowError
   \<or> (\<exists>r. get_results_dict ps g t idle = Inr r \<and> res_processes r = map to_dict ps
          \<and> res_gantt r = g \<and> res_total_time r = t \<and> res_total_idle_time r = idle)"
proof -
  let ?n = "int (length ps)"
  have n: "ps \<noteq> [] \<Longrightarrow> ?n \<noteq> 0" by simp
  consider (a) "ps \<noteq> []" "true_div (sum_list (map turnaround_time ps)) ?n = Inl OverflowError"
    | (b) "ps \<noteq> []" "true_div (sum_list (map waiting_time ps)) ?n = Inl OverflowError"
    | (c) "0 < t" "true_div (t - idle) t = Inl OverflowError"
    | (d) "ps \<noteq> [] \<longrightarrow> (\<exists>q. true_div (sum_list (map turnaround_time ps)) ?n = Inr q)"
          "ps \<noteq> [] \<longrightarrow> (\<exists>q. true_div (sum_list (map waiting_time ps)) ?n = Inr q)"
          "0 < t \<longrightarrow> (\<exists>q. true_div (t - idle) t = Inr q)"
    using true_div_cases[OF n, of "sum_list (map turnaround_time ps)"]
      true_div_cases[OF n, of "sum_list (map waiting_time ps)"]
      true_div_cases[of t "t - idle"]
    by fastforce
  then show ?thesis
  proof cases
    case a
    then show ?thesis by (simp add: get_results_dict_def)
  next
    case b
    with true_div_cases[OF n, of "sum_list (map turnaround_time ps)"] show ?thesis
      by (auto simp: get_results_dict_def)
  next
    case c
    then show ?thesis
      by (cases "ps = []")
         (use true_div_cases[OF n, of "sum_list (map turnaround_time ps)"]
              true_div_cases[OF n, of "sum_list (map waiting_time ps)"]
          in \<open>auto simp: get_results_dict_def\<close>)
  next
    case d
    then show ?thesis
      by (cases "ps = []"; cases "0 < t") (auto simp: get_results_dict_def)
  qed
qed

lemma returned_unless_overflowI:
  assumes "\<And>r. res_processes r = map to_dict ps' \<Longrightarrow> res_gantt r = g
     \<Longrightarrow> res_total_time r = t \<Longrightarrow> res_total_idle_time r = idle \<Longrightarrow> P r"
  shows "returned_unless_overflow (Some (Inr (cl, get_results_dict ps' g t idle))) P"
  using get_results_dict_cases[of ps' g t idle] assms
  by (auto simp: returned_unless_overflow_def)

text \<open>What holds of the entries handed to \<open>get_results_dict\<close> holds of the dictionary.\<close>

lemma results_ok:
  assumes "gantt_ok g t" "list_all metrics_ok ps'" "accounted_for ps ps' t idle"
    and "res_processes r = map to_dict ps'" "res_gantt r = g"
    and "res_total_time r = t" "res_total_idle_time r = idle"
  shows "well_timed r \<and> metrics_hold r \<and> accounted ps r"
  using assms
  by (simp add: well_timed_def metrics_hold_def accounted_def accounted_for_def
      list_all_iff dict_metrics_ok_to_dict comp_def dict_descriptor_to_dict)

lemma handed_ok:
  assumes "gantt_ok g t" "list_all metrics_ok ps'" "accounted_for ps ps' t idle"
  shows "returned_unless_overflow (Some (Inr (cl, get_results_dict ps' g t idle)))
           (\<lambda>r. well_timed r \<and> metrics_hold r \<and> accounted ps r)"
  by (rule returned_unless_overflowI) (rule results_ok[OF assms])

lemma ended_weaken: "ended out P \<Longrightarrow> (\<And>s. P s \<Longrightarrow> Q s) \<Longrightarrow> ended out Q"
  by (auto simp: ended_def split: option.splits sum.splits)

lemma returned_unless_overflow_weaken:
  "returned_unless_overflow out P \<Longrightarrow> (\<And>r. P r \<Longrightarrow> Q r) \<Longrightarrow> returned_unless_overflow out Q"
  by (auto simp: returned_unless_overflow_def split: option.splits sum.splits)

lemma valid_input_burst: "valid_input ps \<Longrightarrow> \<forall>p\<in>set ps. 0 \<le> burst_time p"
  by (auto simp: valid_input_def list_all_iff)

lemma fcfs_body_frame:
  assumes "fcfs_body p t = (p', t')"
  shows "frame p p' \<and> metrics_ok p'"
  using assms by (auto simp: fcfs_body_def Let_def metrics_ok_def frame_def descriptor_def)

lemma fcfs_loop_frame:
  "fcfs_loop ps t = (ps', t') \<Longrightarrow> list_all2 (\<lambda>p p'. frame p p' \<and> metrics_ok p') ps ps'"
proof (induction ps arbitrary: t ps' t')
  case Nil
  then show ?case by simp
next
  case (Cons p ps)
  obtain p1 t1 where b: "fcfs_body p t = (p1, t1)" by (cases "fcfs_body p t")
  obtain ps2 t2 where l: "fcfs_loop ps t1 = (ps2, t2)" by (cases "fcfs_loop ps t1")
  from Cons.prems b l have t2: "ps' = p1 # ps2" by simp
  from fcfs_body_frame[OF b] Cons.IH[OF l] t2 show ?case by simp
qed

lemma fcfs_result:
  assumes v: "valid_input ps"
  shows "gantt_ok (gantt (snd (fcfs_end ps))) (current_time (snd (fcfs_end ps)))
           \<and> list_all metrics_ok (fst (fcfs_end ps))
           \<and> accounted_for ps (fst (fcfs_end ps)) (current_time (snd (fcfs_end ps)))
                 (total_idle_time (snd (fcfs_end ps)))"
    and "returned_unless_overflow (Some (Inr (schedule_fcfs ps)))
           (\<lambda>r. well_timed r \<and> metrics_hold r \<and> accounted ps r)"
proof -
  let ?srt = "sort_key arrival_time ps"
  obtain ps' t where l: "fcfs_loop ?srt timeline_init = (ps', t)"
    by (cases "fcfs_loop ?srt timeline_init")
  have r: "schedule_fcfs ps
      = (ps', get_results_dict ps' (gantt t) (current_time t) (total_idle_time t))"
    by (simp add: schedule_fcfs_def l)
  have "\<forall>p\<in>set ?srt. 0 \<le> burst_time p" using valid_input_burst[OF v] by simp
  moreover have "chain 0 (gantt timeline_init) (current_time timeline_init)"
    by (simp add: timeline_init_def)
  ultimately have "chain 0 (gantt t) (current_time t)"
    using fcfs_loop_chain[OF l] by blast
  then have ch: "gantt_ok (gantt t) (current_time t)" by (rule gantt_okI)
  have tm: "current_time t - total_idle_time t = sum_list (map burst_time ps)"
    using fcfs_loop_time[OF l] by (simp add: timeline_init_def sum_list_sort_key)
  note pr = fcfs_loop_frame[OF l]
  have len: "length ?srt = length ps'" by (rule list_all2_lengthD[OF pr])
  have nth: "\<And>i. i < length ps' \<Longrightarrow> frame (?srt ! i) (ps' ! i) \<and> metrics_ok (ps' ! i)"
    using list_all2_nthD2[OF pr] by blast
  have met: "list_all metrics_ok ps'"
    unfolding list_all_length using nth by blast
  have "map descriptor ps' = map descriptor ?srt"
    using len nth by (intro nth_equalityI) (simp_all add: frame_def)
  then have "mset (map descriptor ps') = mset (map descriptor ps)" by simp
  with tm have acc: "accounted_for ps ps' (current_time t) (total_idle_time t)"
    by (simp add: accounted_for_def)
  from ch met acc show "gantt_ok (gantt (snd (fcfs_end ps))) (current_time (snd (fcfs_end ps)))
           \<and> list_all metrics_ok (fst (fcfs_end ps))
           \<and> accounted_for ps (fst (fcfs_end ps)) (current_time (snd (fcfs_end ps)))
                 (total_idle_time (snd (fcfs_end ps)))"
    by (simp add: fcfs_end_def l)
  show "returned_unless_overflow (Some (Inr (schedule_fcfs ps)))
           (\<lambda>r. well_timed r \<and> metrics_hold r \<and> accounted ps r)"
    unfolding r by (rule handed_ok[OF ch met acc])
qed

lemma np_result:
  assumes v: "valid_input ps" and fuel: "np_bound ps \<le> fuel"
  shows "ended (np_loop key fuel (np_init ps))
           (\<lambda>s. length (completed s) = length ps
              \<and> gantt_ok (gantt s) (current_time s) \<and> list_all metrics_ok (processes s)
              \<and> accounted_for ps (processes s) (current_time s) (total_idle_time s))"
    and "returned_unless_overflow (np_return (np_loop key fuel (np_init ps)))
           (\<lambda>r. well_timed r \<and> metrics_hold r \<and> accounted ps r)"
proof -
  from np_loop_init[OF valid_input_burst[OF v], of fuel key] fuel
  obtain s where s: "np_loop key fuel (np_init ps) = Some (Inr s)" "np_inv ps s"
    "length (completed s) = length ps"
    by (auto simp: np_bound_def)
  note f = np_final[OF s(2,3)]
  have ch: "gantt_ok (gantt s) (current_time s)" by (rule gantt_okI[OF f(1)])
  have "mset (map descriptor (processes s)) = mset (map descriptor ps)" by (simp add: f(3))
  with f(2) have acc: "accounted_for ps (processes s) (current_time s) (total_idle_time s)"
    by (simp add: accounted_for_def)
  from ch f(5) acc s(3) show "ended (np_loop key fuel (np_init ps))
           (\<lambda>s. length (completed s) = length ps
              \<and> gantt_ok (gantt s) (current_time s) \<and> list_all metrics_ok (processes s)
              \<and> accounted_for ps (processes s) (current_time s) (total_idle_time s))"
    by (simp add: ended_def s(1))
  show "returned_unless_overflow (np_return (np_loop key fuel (np_init ps)))
           (\<lambda>r. well_timed r \<and> metrics_hold r \<and> accounted ps r)"
    unfolding np_return_def s(1) option.map map_sum.simps
    by (rule handed_ok[OF ch f(5) acc])
qed

lemma rr_result:
  fixes tq :: int
  assumes v: "valid_input ps" and tq: "0 < tq" and fuel: "rr_bound ps tq \<le> fuel"
  shows "ended (rr_loop tq fuel (rr_init ps))
           (\<lambda>s. completed_count s = length ps
              \<and> gantt_ok (gantt s) (current_time s) \<and> list_all metrics_ok (processes_copy s)
              \<and> accounted_for ps (processes_copy s) (current_time s) (total_idle_time s))"
    and "returned_unless_overflow (schedule_rr fuel ps tq)
           (\<lambda>r. well_timed r \<and> metrics_hold r \<and> accounted ps r)"
proof -
  from rr_loop_init[OF tq v, of fuel] fuel
  obtain s where s: "rr_loop tq fuel (rr_init ps) = Some (Inr s)" "rr_inv (sorted_copy ps) s"
    "completed_count s = length ps"
    by (auto simp: rr_bound_def)
  from s(3) have "completed_count s = length (sorted_copy ps)" by (simp add: sorted_copy_props)
  note f = rr_final[OF s(2) this]
  have ch: "gantt_ok (gantt s) (current_time s)" by (rule gantt_okI[OF f(1)])
  have "mset (map descriptor (processes_copy s)) = mset (map descriptor ps)"
    by (simp only: f(3) sorted_copy_props)
  moreover have "current_time s - total_idle_time s = sum_list (map burst_time ps)"
    using f(2) by (simp only: sorted_copy_props)
  ultimately have acc: "accounted_for ps (processes_copy s) (current_time s) (total_idle_time s)"
    by (simp add: accounted_for_def)
  from ch f(4) acc s(3) show "ended (rr_loop tq fuel (rr_init ps))
           (\<lambda>s. completed_count s = length ps
              \<and> gantt_ok (gantt s) (current_time s) \<and> list_all metrics_ok (processes_copy s)
              \<and> accounted_for ps (processes_copy s) (current_time s) (total_idle_time s))"
    by (simp add: ended_def s(1))
  show "returned_unless_overflow (schedule_rr fuel ps tq)
           (\<lambda>r. well_timed r \<and> metrics_hold r \<and> accounted ps r)"
    unfolding schedule_rr_def s(1) option.map map_sum.simps
    by (rule handed_ok[OF ch f(4) acc])
qed

section \<open>Passes of First-Come, First-Served, and an example input\<close>

lemma fcfs_passes: "fcfs_loop ps t = (ps', t') \<Longrightarrow> length ps' = length ps \<and> length (gantt t') \<le> length (gantt t) + 2 * length ps"
proof (induction ps arbitrary: t ps' t')
  case Nil
  then show ?case by simp
next
  case (Cons p ps)
  obtain p1 t1 where b: "fcfs_body p t = (p1, t1)" by (cases "fcfs_body p t")
  obtain ps2 t2 where l: "fcfs_loop ps t1 = (ps2, t2)" by (cases "fcfs_loop ps t1")
  from Cons.prems b l have e: "ps' = p1 # ps2" "t' = t2" by simp_all
  from b have "length (gantt t1) \<le> length (gantt t) + 2"
    by (auto simp: fcfs_body_def Let_def split: if_splits)
  with Cons.IH[OF l] e show ?case by simp
qed

lemma schedule_fcfs_passes:
  "length (fst (fcfs_end ps)) = length ps
   \<and> length (gantt (snd (fcfs_end ps))) \<le> 2 * length ps
   \<and> fst (schedule_fcfs ps) = fst (fcfs_end ps)"
proof -
  obtain ps' t where l: "fcfs_loop (sort_key arrival_time ps) timeline_init = (ps', t)"
    by (cases "fcfs_loop (sort_key arrival_time ps) timeline_init")
  from fcfs_passes[OF l] have "length ps' = length ps \<and> length (gantt t) \<le> 2 * length ps"
    by (simp add: timeline_init_def)
  then show ?thesis
    by (simp add: schedule_fcfs_def fcfs_end_def l)
qed

lemma valid_example:
  "valid_input [Process ''A'' 0 5 0, Process ''B'' 1 3 0]"
  "np_bound [Process ''A'' 0 5 0, Process ''B'' 1 3 0] \<le> 6"
  "rr_bound [Process ''A'' 0 5 0, Process ''B'' 1 3 0] 2 \<le> 6"
  by (simp_all add: valid_input_def Process_def np_bound_def rr_bound_def)

section \<open>Round Robin: every state of the loop\<close>

lemma map_arrival_update:
  assumes "arrival_time y = arrival_time (xs ! c)"
  shows "map arrival_time (xs[c := y]) = map arrival_time xs"
proof (cases "c < length xs")
  case True
  then have "(map arrival_time xs)[c := arrival_time (xs ! c)] = map arrival_time xs"
    by (simp add: list_eq_iff_nth_eq nth_list_update)
  with assms show ?thesis by (simp add: map_update)
next
  case False
  then have "xs[c := y] = xs" by (intro list_update_beyond) simp
  then show ?thesis by simp
qed

lemma rr_body_arrivals:
  assumes inv: "rr_queue_inv s" and guard: "completed_count s < length (processes_copy s)"
    and body: "rr_body tq s = Inr s'"
  shows "map arrival_time (processes_copy s') = map arrival_time (processes_copy s)"
proof -
  from rr_idle_ok[OF inv guard] obtain s1 where s1: "rr_idle s = Inr s1" "rr_queue_inv s1"
    "ready_queue s1 \<noteq> []" "processes_copy s1 = processes_copy s"
    by (auto simp: rr_idled_fields)
  obtain c rest where q: "ready_queue s1 = c # rest" using s1(3) by (cases "ready_queue s1") auto
  from body s1(1) have run: "rr_run tq s1 = Inr s'" by (simp add: rr_body_def)
  from rr_run_char[OF s1(2) q, of tq] run
  have "processes_copy s' = (processes_copy s1)[c := (processes_copy s1 ! c)\<lparr>remaining_time :=
            remaining_time (processes_copy s1 ! c) - execute_time tq s1\<rparr>]
      \<or> processes_copy s' = (processes_copy s1)[c := (processes_copy s1 ! c)\<lparr>remaining_time :=
            remaining_time (processes_copy s1 ! c) - execute_time tq s1,
            finish_time := current_time s1 + execute_time tq s1,
            turnaround_time := current_time s1 + execute_time tq s1 - arrival_time (processes_copy s1 ! c),
            waiting_time := current_time s1 + execute_time tq s1 - arrival_time (processes_copy s1 ! c)
               - burst_time (processes_copy s1 ! c)\<rparr>]"
    by (auto split: if_splits)
  then have "map arrival_time (processes_copy s') = map arrival_time (processes_copy s1)"
    by (auto intro!: map_arrival_update)
  with s1(4) show ?thesis by simp
qed

lemma rr_reach_sorted:
  "rr_reach tq ps s \<Longrightarrow> map arrival_time (processes_copy s) = map arrival_time (sorted_copy ps)"
proof (induction rule: rr_reach.induct)
  case (rr_start tq ps)
  show ?case by (simp add: rr_init_fields)
next
  case (rr_pass tq ps s s')
  from rr_body_arrivals[OF rr_reach_queue_inv[OF rr_pass.hyps(1)] rr_pass.hyps(2,3)] rr_pass.IH
  show ?case by simp
qed

lemma rr_loop_no_error:
  "rr_queue_inv s \<Longrightarrow> rr_loop tq fuel s \<noteq> Some (Inl e)"
proof (induction fuel arbitrary: s)
  case 0
  then show ?case by simp
next
  case (Suc fuel)
  show ?case
  proof (cases "completed_count s < length (processes_copy s)")
    case True
    from rr_queue_inv_body[OF Suc.prems True, of tq] obtain s' where
      s': "rr_body tq s = Inr s'" "rr_queue_inv s'" by blast
    from Suc.IH[OF s'(2)] True s'(1) show ?thesis by simp
  next
    case False
    then show ?thesis by simp
  qed
qed

lemma card_outside_queue:
  assumes "distinct q" "set q \<subseteq> {..<n}"
  shows "card {i. i < n \<and> i \<notin> set q} = n - length q"
proof -
  have "{i. i < n \<and> i \<notin> set q} = {..<n} - set q" by auto
  moreover have "card ({..<n} - set q) = card {..<n} - card (set q)"
    using assms(2) by (intro card_Diff_subset) simp_all
  ultimately show ?thesis using distinct_card[OF assms(1)] by simp
qed

lemma filter_upt_prefix:
  assumes "i \<le> k" "k \<le> n" "\<And>j. i \<le> j \<Longrightarrow> j < k \<Longrightarrow> P j"
    "\<And>j. k \<le> j \<Longrightarrow> j < n \<Longrightarrow> \<not> P j"
  shows "filter P [i..<n] = [i..<k]"
proof -
  from assms(2) obtain d where d: "n = k + d" using le_Suc_ex by blast
  have "[i..<n] = [i..<k] @ [k..<n]" unfolding d using assms(1) by (rule upt_add_eq_append)
  moreover have "filter P [i..<k] = [i..<k]" using assms(3) by (simp add: filter_id_conv)
  moreover have "filter P [k..<n] = []" using assms(4) by (simp add: filter_empty_conv)
  ultimately show ?thesis by simp
qed

section \<open>A non-positive quantum, and what the policies write into their argument\<close>

lemma rr_body_stuck:
  fixes tq :: int
  assumes tq: "tq \<le> 0" and inv: "rr_queue_inv s" and c0: "completed_count s = 0"
    and ne: "processes_copy s \<noteq> []"
    and pos: "\<forall>i<length (processes_copy s). 0 < remaining_time (processes_copy s ! i)"
  shows "\<exists>s'. rr_body tq s = Inr s' \<and> rr_queue_inv s' \<and> completed_count s' = 0
     \<and> processes_copy s' \<noteq> []
     \<and> (\<forall>i<length (processes_copy s'). 0 < remaining_time (processes_copy s' ! i))"
proof -
  from c0 ne have guard: "completed_count s < length (processes_copy s)" by simp
  from rr_idle_ok[OF inv guard] obtain s1 where s1: "rr_idle s = Inr s1" "rr_queue_inv s1"
    "ready_queue s1 \<noteq> []" "processes_copy s1 = processes_copy s"
    "completed_count s1 = completed_count s"
    by (auto simp: rr_idled_fields)
  obtain c rest where q: "ready_queue s1 = c # rest" using s1(3) by (cases "ready_queue s1") auto
  let ?pcs = "processes_copy s1"
  define p where "p = ?pcs ! c"
  define e where "e = execute_time tq s1"
  have e: "e = min tq (remaining_time p)" by (simp add: e_def p_def execute_time_def q)
  from rr_queue_invD(1,3)[OF s1(2)] q have cn: "c < length ?pcs" by simp
  with pos s1(4) have rp: "0 < remaining_time p" by (simp add: p_def)
  with tq e have stay: "0 < remaining_time p - e" by simp
  from rr_run_char[OF s1(2) q, of tq] stay obtain s' where s':
    "rr_run tq s1 = Inr s'"
    "processes_copy s' = ?pcs[c := p\<lparr>remaining_time := remaining_time p - e\<rparr>]"
    "completed_count s' = completed_count s1"
    unfolding p_def e_def by auto
  from rr_queue_inv_run[OF s1(2,3), of tq] s'(1) have "rr_queue_inv s'" by simp
  moreover have "rr_body tq s = Inr s'" using s1(1) s'(1) by (simp add: rr_body_def)
  moreover have "completed_count s' = 0" using s'(3) s1(5) c0 by simp
  moreover have "processes_copy s' \<noteq> []" using s'(2) s1(4) ne by simp
  moreover have "\<forall>i<length (processes_copy s'). 0 < remaining_time (processes_copy s' ! i)"
    using pos stay s1(4) cn by (auto simp: s'(2) nth_list_update)
  ultimately show ?thesis by blast
qed

lemma rr_loop_stuck:
  fixes tq :: int
  assumes tq: "tq \<le> 0"
  shows "rr_queue_inv s \<Longrightarrow> completed_count s = 0 \<Longrightarrow> processes_copy s \<noteq> []
     \<Longrightarrow> \<forall>i<length (processes_copy s). 0 < remaining_time (processes_copy s ! i)
     \<Longrightarrow> rr_loop tq fuel s = None"
proof (induction fuel arbitrary: s)
  case 0
  then show ?case by simp
next
  case (Suc fuel)
  from rr_body_stuck[OF tq Suc.prems] obtain s' where s': "rr_body tq s = Inr s'"
    "rr_queue_inv s'" "completed_count s' = 0" "processes_copy s' \<noteq> []"
    "\<forall>i<length (processes_copy s'). 0 < remaining_time (processes_copy s' ! i)" by blast
  from Suc.IH[OF s'(2-5)] s'(1) Suc.prems(2,3) show ?case by simp
qed

lemma schedule_rr_stuck:
  fixes tq :: int
  assumes tq: "tq \<le> 0" and v: "valid_input ps" and ne: "ps \<noteq> []"
  shows "schedule_rr fuel ps tq = None"
proof -
  have "length (processes_copy (rr_init ps)) = length ps"
    by (simp add: rr_init_fields sorted_copy_props)
  with ne have n: "processes_copy (rr_init ps) \<noteq> []" by (cases ps) auto
  have "\<forall>i<length (processes_copy (rr_init ps)). 0 < remaining_time (processes_copy (rr_init ps) ! i)"
    using sorted_copy_valid(2,3)[OF v] by (simp add: rr_init_fields)
  from rr_loop_stuck[OF tq rr_queue_inv_init _ n this, of fuel]
  show ?thesis by (simp add: schedule_rr_def rr_init_fields)
qed

lemma valid_input_descriptors:
  "valid_input (map copy (map (\<lambda>(pid, arrival, burst, prio). Process pid arrival burst prio) data))
     = list_all (\<lambda>(pid, arrival, burst, prio). 0 \<le> arrival \<and> 0 < burst) data"
  by (induction data) (auto simp: valid_input_def copy_def Process_def)

lemma frame_refl: "frame p p"
  by (simp add: frame_def)

lemma frame_trans: "frame p q \<Longrightarrow> frame q r \<Longrightarrow> frame p r"
  by (simp add: frame_def)

lemma np_body_frame:
  assumes "np_body key s = Inr s'"
  shows "list_all2 frame (processes s) (processes s')"
proof (cases "available s = []")
  case True
  with assms have "processes s' = processes s"
    by (auto simp: np_body_def Let_def split: if_splits)
  then show ?thesis by (simp add: list_all2_conv_all_nth frame_refl)
next
  case False
  let ?k = "np_select key s"
  from assms np_body_run[OF False, of key] have s': "s' = np_ran ?k s" by simp
  note sel = np_select_props[OF False, of key]
  show ?thesis
    unfolding list_all2_conv_all_nth
  proof (intro conjI allI impI)
    show "length (processes s) = length (processes s')" by (simp add: s' np_ran_fields)
    fix i assume "i < length (processes s)"
    then show "frame (processes s ! i) (processes s' ! i)"
      by (simp add: s' np_ran_nth frame_def descriptor_def)
  qed
qed

lemma np_loop_frame:
  "np_loop key fuel s = Some (Inr s') \<Longrightarrow> list_all2 frame (processes s) (processes s')"
proof (induction fuel arbitrary: s)
  case 0
  then show ?case by (simp add: list_all2_conv_all_nth frame_refl split: if_splits)
next
  case (Suc fuel)
  show ?case
  proof (cases "length (completed s) < length (processes s)")
    case False
    with Suc.prems show ?thesis by (simp add: list_all2_conv_all_nth frame_refl)
  next
    case True
    with Suc.prems obtain s1 where s1: "np_body key s = Inr s1" "np_loop key fuel s1 = Some (Inr s')"
      by (cases "np_body key s") simp_all
    from np_body_frame[OF s1(1)] Suc.IH[OF s1(2)] show ?thesis
      by (rule list_all2_trans[rotated]) (rule frame_trans)
  qed
qed

lemma np_caller_list:
  assumes "caller_list (np_return (np_loop key fuel (np_init ps))) = Some ps'"
  shows "list_all2 frame ps ps'"
proof -
  from assms obtain s where s: "np_loop key fuel (np_init ps) = Some (Inr s)" "ps' = processes s"
    by (cases "np_loop key fuel (np_init ps)")
       (auto simp: caller_list_def np_return_def map_sum_def split: sum.splits)
  from np_loop_frame[OF s(1)] s(2) show ?thesis by (simp add: np_init_def)
qed

lemma fcfs_caller_list:
  "list_all2 frame (sort_key arrival_time ps) (fst (schedule_fcfs ps))"
proof -
  obtain ps' t where l: "fcfs_loop (sort_key arrival_time ps) timeline_init = (ps', t)"
    by (cases "fcfs_loop (sort_key arrival_time ps) timeline_init")
  from fcfs_loop_frame[OF l] have "list_all2 frame (sort_key arrival_time ps) ps'"
    by (rule list_all2_mono) simp
  then show ?thesis by (simp add: schedule_fcfs_def l)
qed

lemma rr_caller_list:
  assumes "caller_list (schedule_rr fuel ps tq) = Some ps'"
  shows "ps' = ps"
  using assms
  by (cases "rr_loop tq fuel (rr_init ps)")
     (auto simp: caller_list_def schedule_rr_def map_sum_def split: sum.splits)

lemmas np_eval = schedule_sjf_def schedule_priority_def np_return_def np_init_def np_body_def
  available_def pending_arrivals_def sjf_key_def priority_key_def caller_list_def
  Process_def GanttEntry_def get_results_dict_def true_div_small to_dict_def Let_def upt_rec

lemmas fcfs_eval = schedule_fcfs_def fcfs_body_def timeline_init_def
  Process_def GanttEntry_def get_results_dict_def true_div_small to_dict_def Let_def

text \<open>
  On the example every call returns its dictionary; a burst of \<open>2 ^ 1024\<close> makes the
  average turnaround too large for a float, and \<open>get_results_dict\<close> raises.
\<close>

lemma example_returned:
  "returned (Some (Inr (schedule_fcfs [Process ''A'' 0 5 0, Process ''B'' 1 3 0]))) (\<lambda>r. True)"
  "returned (schedule_sjf 6 [Process ''A'' 0 5 0, Process ''B'' 1 3 0]) (\<lambda>r. True)"
  "returned (schedule_priority 6 [Process ''A'' 0 5 0, Process ''B'' 1 3 0]) (\<lambda>r. True)"
  "returned (schedule_rr 6 [Process ''A'' 0 5 0, Process ''B'' 1 3 0] 2) (\<lambda>r. True)"
proof -
  show "returned (Some (Inr (schedule_fcfs [Process ''A'' 0 5 0, Process ''B'' 1 3 0]))) (\<lambda>r. True)"
    by (simp add: returned_def fcfs_eval)
  show "returned (schedule_sjf 6 [Process ''A'' 0 5 0, Process ''B'' 1 3 0]) (\<lambda>r. True)"
    by (simp add: returned_def np_eval eval_nat_numeral)
  show "returned (schedule_priority 6 [Process ''A'' 0 5 0, Process ''B'' 1 3 0]) (\<lambda>r. True)"
    by (simp add: returned_def np_eval eval_nat_numeral)
  show "returned (schedule_rr 6 [Process ''A'' 0 5 0, Process ''B'' 1 3 0] 2) (\<lambda>r. True)"
    by (simp add: returned_def rr_eval eval_nat_numeral)
qed

lemma returnedI:
  "returned_unless_overflow out P \<Longrightarrow> returned out (\<lambda>r. True) \<Longrightarrow> returned out P"
  by (auto simp: returned_unless_overflow_def returned_def split: option.splits sum.splits)

lemma overflow:
  assumes "float_overflow \<le> of_int b"
  shows "snd (schedule_fcfs [Process ''A'' 0 b 0]) = Inl OverflowError"
    and "schedule_sjf 2 [Process ''A'' 0 b 0]
     = Some (Inr ([(Process ''A'' 0 b 0)\<lparr>finish_time := b,
           turnaround_time := b, waiting_time := 0\<rparr>], Inl OverflowError))"
    and "schedule_rr 2 [Process ''A'' 0 b 0] b
     = Some (Inr ([Process ''A'' 0 b 0], Inl OverflowError))"
proof -
  have "(0::rat) < float_overflow" by (simp add: float_overflow_def)
  with assms have pos: "0 < b" by simp
  from assms pos have d: "true_div b 1 = Inl OverflowError"
    by (simp add: true_div_def)
  show "snd (schedule_fcfs [Process ''A'' 0 b 0]) = Inl OverflowError"
    by (simp add: schedule_fcfs_def fcfs_body_def timeline_init_def Process_def GanttEntry_def
        get_results_dict_def Let_def d)
  show "schedule_sjf 2 [Process ''A'' 0 b 0]
     = Some (Inr ([(Process ''A'' 0 b 0)\<lparr>finish_time := b,
           turnaround_time := b, waiting_time := 0\<rparr>], Inl OverflowError))"
    by (simp add: schedule_sjf_def np_return_def np_init_def np_body_def
        available_def pending_arrivals_def sjf_key_def Process_def GanttEntry_def
        get_results_dict_def Let_def upt_rec d eval_nat_numeral)
  show "schedule_rr 2 [Process ''A'' 0 b 0] b
     = Some (Inr ([Process ''A'' 0 b 0], Inl OverflowError))"
    using pos
    by (simp add: schedule_rr_def rr_init_def rr_body_def rr_idle_def rr_run_def admit.simps
        Process_def copy_def GanttEntry_def get_results_dict_def Let_def d eval_nat_numeral)
qed

lemma overflow_example:
  "snd (schedule_fcfs [Process ''A'' 0 (2 ^ 1024) 0]) = Inl OverflowError"
  "schedule_rr 2 [Process ''A'' 0 (2 ^ 1024) 0] (2 ^ 1024)
     = Some (Inr ([Process ''A'' 0 (2 ^ 1024) 0], Inl OverflowError))"
proof -
  have big: "float_overflow \<le> of_int (2 ^ 1024)" by (simp add: float_overflow_def)
  show "snd (schedule_fcfs [Process ''A'' 0 (2 ^ 1024) 0]) = Inl OverflowError"
    by (rule overflow(1)[OF big])
  show "schedule_rr 2 [Process ''A'' 0 (2 ^ 1024) 0] (2 ^ 1024)
     = Some (Inr ([Process ''A'' 0 (2 ^ 1024) 0], Inl OverflowError))"
    by (rule overflow(3)[OF big])
qed

section \<open>Larger bounds\<close>

text \<open>
  A larger bound never changes what a loop returned: the results of the bounded loops
  are those of the loops of the source whenever there is one.
\<close>

lemma np_loop_mono:
  "np_loop key fuel s = Some out \<Longrightarrow> np_loop key (fuel + k) s = Some out"
proof (induction fuel arbitrary: s)
  case 0
  then show ?case by (simp add: np_loop_done split: if_splits)
next
  case (Suc fuel)
  show ?case
  proof (cases "length (completed s) < length (processes s)")
    case False
    with Suc.prems show ?thesis by (simp add: np_loop_done)
  next
    case True
    show ?thesis
    proof (cases "np_body key s")
      case (Inl e)
      with True Suc.prems show ?thesis by auto
    next
      case (Inr s1)
      with True Suc.prems have "np_loop key fuel s1 = Some out" by simp
      from Suc.IH[OF this] True Inr show ?thesis by simp
    qed
  qed
qed

lemma rr_loop_mono:
  "rr_loop tq fuel s = Some out \<Longrightarrow> rr_loop tq (fuel + k) s = Some out"
proof (induction fuel arbitrary: s)
  case 0
  then show ?case by (simp add: rr_loop_done split: if_splits)
next
  case (Suc fuel)
  show ?case
  proof (cases "completed_count s < length (processes_copy s)")
    case False
    with Suc.prems show ?thesis by (simp add: rr_loop_done)
  next
    case True
    show ?thesis
    proof (cases "rr_body tq s")
      case (Inl e)
      with True Suc.prems show ?thesis by auto
    next
      case (Inr s1)
      with True Suc.prems have "rr_loop tq fuel s1 = Some out" by simp
      from Suc.IH[OF this] True Inr show ?thesis by simp
    qed
  qed
qed

lemma schedule_mono:
  assumes "fuel \<le> fuel'"
  shows "schedule_sjf fuel ps = Some out \<Longrightarrow> schedule_sjf fuel' ps = Some out"
    and "schedule_priority fuel ps = Some out \<Longrightarrow> schedule_priority fuel' ps = Some out"
    and "schedule_rr fuel ps tq = Some out \<Longrightarrow> schedule_rr fuel' ps tq = Some out"
proof -
  from assms obtain k where k: "fuel' = fuel + k" using le_Suc_ex by blast
  show "schedule_sjf fuel ps = Some out \<Longrightarrow> schedule_sjf fuel' ps = Some out"
    unfolding schedule_sjf_def np_return_def k
    by (cases "np_loop sjf_key fuel (np_init ps)") (auto dest: np_loop_mono[where k = k])
  show "schedule_priority fuel ps = Some out \<Longrightarrow> schedule_priority fuel' ps = Some out"
    unfolding schedule_priority_def np_return_def k
    by (cases "np_loop priority_key fuel (np_init ps)") (auto dest: np_loop_mono[where k = k])
  show "schedule_rr fuel ps tq = Some out \<Longrightarrow> schedule_rr fuel' ps tq = Some out"
    unfolding schedule_rr_def k
    by (cases "rr_loop tq fuel (rr_init ps)") (auto dest: rr_loop_mono[where k = k])
qed

section \<open>The claims\<close>

text \<open>
  C1, as the specification states it: \<open>schedule_rr\<close> called with a non-positive quantum
  is rejected with an \<open>InvalidQuantum\<close> error before any Gantt entry is produced. There
  is no such check: with quantum 0, an empty list gives the empty result, and on the
  single process A (arrival 0, burst 5) the first pass of the loop runs and appends the
  entry A:0-0, leaving everything else of the state as it was.
\<close>

theorem nonpositive_quantum_counterexample:
  "schedule_rr 0 [] 0 = Some (Inr ([], Inr empty_results))
   \<and> rr_body 0 (rr_init [Process ''A'' 0 5 0])
       = Inr ((rr_init [Process ''A'' 0 5 0])\<lparr>gantt := [GanttEntry ''A'' 0 0]\<rparr>)"
  by (simp add: schedule_rr_Nil rr_body_def rr_idle_def rr_run_def rr_init_def admit.simps
      Process_def copy_def GanttEntry_def Let_def)

text \<open>
  C1, amended: neither \<open>schedule_rr\<close> nor the request handler checks the quantum. With
  a non-positive quantum an empty process list gives the empty result; on a non-empty
  valid input no pass of the loop completes a process, so the loop does not end and the
  call returns nothing: no error, and no result, partial or other.
\<close>

theorem nonpositive_quantum:
  assumes "time_quantum \<le> 0"
  shows "schedule_rr fuel [] time_quantum = Some (Inr ([], Inr empty_results))
     \<and> (valid_input ps \<and> ps \<noteq> [] \<longrightarrow> schedule_rr fuel ps time_quantum = None)
     \<and> (data \<noteq> [] \<and> list_all (\<lambda>(pid, arrival, burst, prio). 0 \<le> arrival \<and> 0 < burst) data
          \<longrightarrow> api_schedule fuel data ''rr'' time_quantum = None)"
proof (intro conjI impI)
  show "schedule_rr fuel [] time_quantum = Some (Inr ([], Inr empty_results))"
    by (rule schedule_rr_Nil)
  show "schedule_rr fuel ps time_quantum = None" if "valid_input ps \<and> ps \<noteq> []"
    using schedule_rr_stuck[OF assms] that by blast
  show "api_schedule fuel data ''rr'' time_quantum = None"
    if d: "data \<noteq> [] \<and> list_all (\<lambda>(pid, arrival, burst, prio). 0 \<le> arrival \<and> 0 < burst) data"
  proof -
    let ?procs = "map (\<lambda>(pid, arrival, burst, prio). Process pid arrival burst prio) data"
    have "valid_input (map copy ?procs)" using d by (simp only: valid_input_descriptors)
    moreover have "map copy ?procs \<noteq> []" using d by simp
    ultimately have "schedule_rr fuel (map copy ?procs) time_quantum = None"
      by (rule schedule_rr_stuck[OF assms])
    with d show ?thesis by (simp add: api_schedule_def respond_def)
  qed
qed

theorem nonpositive_quantum_witness:
  "(0::int) \<le> 0 \<and> valid_input [Process ''A'' 0 5 0] \<and> [Process ''A'' 0 5 0] \<noteq> []
   \<and> schedule_rr 3 [Process ''A'' 0 5 0] 0 = None
   \<and> api_schedule 3 [(''A'', 0, 5, 0)] ''rr'' 0 = None"
proof -
  have q: "(0::int) \<le> 0" by simp
  have v: "valid_input [Process ''A'' 0 5 0]" by (simp add: valid_input_def Process_def)
  have n: "[Process ''A'' 0 5 0] \<noteq> []" by simp
  have d: "[(''A'', 0::int, 5::int, 0::int)] \<noteq> []
      \<and> list_all (\<lambda>(pid, arrival, burst, prio). 0 \<le> arrival \<and> 0 < burst)
            [(''A'', 0::int, 5::int, 0::int)]"
    by simp
  note t = nonpositive_quantum[OF q, of 3 "[Process ''A'' 0 5 0]" "[(''A'', 0, 5, 0)]"]
  from t v n have "schedule_rr 3 [Process ''A'' 0 5 0] 0 = None" by blast
  moreover from t d have "api_schedule 3 [(''A'', 0, 5, 0)] ''rr'' 0 = None" by blast
  ultimately show ?thesis using q v n by blast
qed

text \<open>
  C2, as the specification states it: every policy rejects an empty process list with an
  \<open>EmptyInput\<close> error. The policies do not: each of them returns the result with no
  processes, no Gantt entries and every figure zero.
\<close>

theorem empty_input_counterexample:
  "schedule_fcfs [] = ([], Inr empty_results)
   \<and> schedule_sjf 0 [] = Some (Inr ([], Inr empty_results))
   \<and> schedule_rr 0 [] 3 = Some (Inr ([], Inr empty_results))
   \<and> schedule_priority 0 [] = Some (Inr ([], Inr empty_results))"
  by (simp add: schedule_fcfs_Nil schedule_sjf_Nil schedule_priority_Nil schedule_rr_Nil)

text \<open>
  C2, amended: called with an empty process list, every policy returns the empty result
  (\<open>get_results_dict\<close> guards both averages and the utilization, so nothing is divided
  by zero); the rejection of an empty list is made by the request handler
  \<open>api_schedule\<close>, which answers ``No processes provided'' before any policy runs,
  whatever the algorithm and the quantum.
\<close>

theorem empty_input:
  "schedule_fcfs [] = ([], Inr empty_results)
   \<and> schedule_sjf fuel [] = Some (Inr ([], Inr empty_results))
   \<and> schedule_rr fuel [] time_quantum = Some (Inr ([], Inr empty_results))
   \<and> schedule_priority fuel [] = Some (Inr ([], Inr empty_results))
   \<and> api_schedule fuel [] algorithm time_quantum = Some (Error400 ''No processes provided'')"
  by (simp add: schedule_fcfs_Nil schedule_sjf_Nil schedule_priority_Nil schedule_rr_Nil
      api_schedule_def)

text \<open>
  C3, as the specification states it: running any of the four policy functions leaves
  the caller's records and their order as they were. \<open>schedule_fcfs\<close> sorts the list
  it is given and writes the three metrics into its objects, and \<open>schedule_sjf\<close>
  writes them too: here the caller's lists after the calls.
\<close>

theorem caller_records_counterexample:
  "fst (schedule_fcfs [Process ''B'' 2 3 0, Process ''A'' 0 5 0])
     = [(Process ''A'' 0 5 0)\<lparr>finish_time := 5, turnaround_time := 5, waiting_time := 0\<rparr>,
        (Process ''B'' 2 3 0)\<lparr>finish_time := 8, turnaround_time := 6, waiting_time := 3\<rparr>]
   \<and> fst (schedule_fcfs [Process ''B'' 2 3 0, Process ''A'' 0 5 0])
     \<noteq> [Process ''B'' 2 3 0, Process ''A'' 0 5 0]
   \<and> caller_list (schedule_sjf 2 [Process ''A'' 0 4 0, Process ''B'' 0 2 0])
     = Some [(Process ''A'' 0 4 0)\<lparr>finish_time := 6, turnaround_time := 6, waiting_time := 2\<rparr>,
             (Process ''B'' 0 2 0)\<lparr>finish_time := 2, turnaround_time := 2, waiting_time := 0\<rparr>]"
  by (simp add: fcfs_eval np_eval eval_nat_numeral)

text \<open>
  C3, amended: \<open>schedule_rr\<close> works on its own copy and leaves the caller's list and
  records as they were. \<open>schedule_fcfs\<close>, \<open>schedule_sjf\<close> and \<open>schedule_priority\<close>
  work on the list they are given: they never change the identifier, arrival time,
  burst time, priority or remaining time of a record, \<open>schedule_sjf\<close> and
  \<open>schedule_priority\<close> keep the order of the list, and \<open>schedule_fcfs\<close> leaves it
  sorted by arrival time (stably). The private copy these three run on is made by their
  callers, which hand each of them a list of fresh copies.
\<close>

theorem caller_records:
  "list_all2 frame (sort_key arrival_time ps) (fst (schedule_fcfs ps))
   \<and> (caller_list (schedule_sjf fuel ps) = Some after_sjf \<longrightarrow> list_all2 frame ps after_sjf)
   \<and> (caller_list (schedule_priority fuel ps) = Some after_priority
         \<longrightarrow> list_all2 frame ps after_priority)
   \<and> (caller_list (schedule_rr fuel ps time_quantum) = Some after_rr \<longrightarrow> after_rr = ps)"
  unfolding schedule_sjf_def schedule_priority_def
  using fcfs_caller_list np_caller_list rr_caller_list by blast

theorem caller_records_witness:
  "caller_list (schedule_sjf 2 [Process ''A'' 0 4 0, Process ''B'' 0 2 0])
     = Some [(Process ''A'' 0 4 0)\<lparr>finish_time := 6, turnaround_time := 6, waiting_time := 2\<rparr>,
             (Process ''B'' 0 2 0)\<lparr>finish_time := 2, turnaround_time := 2, waiting_time := 0\<rparr>]
   \<and> list_all2 frame [Process ''A'' 0 4 0, Process ''B'' 0 2 0]
        [(Process ''A'' 0 4 0)\<lparr>finish_time := 6, turnaround_time := 6, waiting_time := 2\<rparr>,
         (Process ''B'' 0 2 0)\<lparr>finish_time := 2, turnaround_time := 2, waiting_time := 0\<rparr>]
   \<and> caller_list (schedule_priority 2 [Process ''A'' 0 4 0, Process ''B'' 0 2 0])
     = Some [(Process ''A'' 0 4 0)\<lparr>finish_time := 4, turnaround_time := 4, waiting_time := 0\<rparr>,
             (Process ''B'' 0 2 0)\<lparr>finish_time := 6, turnaround_time := 6, waiting_time := 4\<rparr>]
   \<and> list_all2 frame [Process ''A'' 0 4 0, Process ''B'' 0 2 0]
        [(Process ''A'' 0 4 0)\<lparr>finish_time := 4, turnaround_time := 4, waiting_time := 0\<rparr>,
         (Process ''B'' 0 2 0)\<lparr>finish_time := 6, turnaround_time := 6, waiting_time := 4\<rparr>]
   \<and> caller_list (schedule_rr 2 [Process ''A'' 0 4 0, Process ''B'' 0 2 0] 4)
     = Some [Process ''A'' 0 4 0, Process ''B'' 0 2 0]"
proof -
  let ?ps = "[Process ''A'' 0 4 0, Process ''B'' 0 2 0]"
  let ?r1 = "[(Process ''A'' 0 4 0)\<lparr>finish_time := 6, turnaround_time := 6, waiting_time := 2\<rparr>,
             (Process ''B'' 0 2 0)\<lparr>finish_time := 2, turnaround_time := 2, waiting_time := 0\<rparr>]"
  let ?r2 = "[(Process ''A'' 0 4 0)\<lparr>finish_time := 4, turnaround_time := 4, waiting_time := 0\<rparr>,
             (Process ''B'' 0 2 0)\<lparr>finish_time := 6, turnaround_time := 6, waiting_time := 4\<rparr>]"
  have a: "caller_list (schedule_sjf 2 ?ps) = Some ?r1"
    by (simp add: np_eval eval_nat_numeral)
  have b: "caller_list (schedule_priority 2 ?ps) = Some ?r2"
    by (simp add: np_eval eval_nat_numeral)
  have c: "caller_list (schedule_rr 2 ?ps 4) = Some ?ps"
    by (simp add: rr_eval caller_list_def eval_nat_numeral)
  note t = caller_records[where ps = ?ps and fuel = 2 and time_quantum = 4
      and after_sjf = ?r1 and after_priority = ?r2 and after_rr = ?ps]
  from t a have "list_all2 frame ?ps ?r1" by blast
  moreover from t b have "list_all2 frame ?ps ?r2" by blast
  ultimately show ?thesis using a b c by blast
qed

text \<open>
  C4, as the specification states it: Round Robin on A (arrival 0, burst 5) and
  B (arrival 1, burst 3) with quantum 2 yields exactly the four entries
  A:0-2, B:2-4, A:4-6, B:6-7. The run has a fifth entry: after its two quanta A has one
  unit of its burst left, which it runs from 7 to 8.
\<close>

theorem rr_quantum_boundary_counterexample:
  "gantt_of (schedule_rr 5 [Process ''A'' 0 5 0, Process ''B'' 1 3 0] 2)
     = Some [GanttEntry ''A'' 0 2, GanttEntry ''B'' 2 4, GanttEntry ''A'' 4 6,
             GanttEntry ''B'' 6 7, GanttEntry ''A'' 7 8]
   \<and> gantt_of (schedule_rr 5 [Process ''A'' 0 5 0, Process ''B'' 1 3 0] 2)
     \<noteq> Some [GanttEntry ''A'' 0 2, GanttEntry ''B'' 2 4, GanttEntry ''A'' 4 6,
             GanttEntry ''B'' 6 7]"
  by (simp add: rr_eval eval_nat_numeral)

text \<open>
  C4, amended: the Gantt sequence is A:0-2, B:2-4, A:4-6, B:6-7, A:7-8 (the loop needs
  five passes; any larger bound gives the same result).
\<close>

theorem rr_quantum_boundary:
  "gantt_of (schedule_rr (5 + fuel) [Process ''A'' 0 5 0, Process ''B'' 1 3 0] 2)
     = Some [GanttEntry ''A'' 0 2, GanttEntry ''B'' 2 4, GanttEntry ''A'' 4 6,
             GanttEntry ''B'' 6 7, GanttEntry ''A'' 7 8]"
proof -
  have fuel: "5 + fuel = Suc (Suc (Suc (Suc (Suc fuel))))" by simp
  show ?thesis unfolding fuel by (simp add: rr_eval rr_loop_done)
qed

text \<open>
  C5: for every policy and every valid input (arrivals not negative, bursts positive, a
  positive quantum for Round Robin) the loop ends within its bound, and the Gantt
  sequence of its final state is contiguous and without overlap: its first entry starts
  at 0, each entry ends where the next one starts, the starts do not decrease, and the
  durations add up to the final time. The call then returns a result, built from that
  state, whose Gantt sequence and \<open>total_time\<close> are so, unless \<open>get_results_dict\<close>
  raises \<open>OverflowError\<close> at one of its divisions.
\<close>

theorem gantt_contiguous:
  assumes "valid_input ps" and "0 < time_quantum"
    and "np_bound ps \<le> fuel" and "rr_bound ps time_quantum \<le> fuel"
  shows "gantt_ok (gantt (snd (fcfs_end ps))) (current_time (snd (fcfs_end ps)))
     \<and> returned_unless_overflow (Some (Inr (schedule_fcfs ps))) well_timed
     \<and> ended (np_loop sjf_key fuel (np_init ps)) (\<lambda>s. gantt_ok (gantt s) (current_time s))
     \<and> returned_unless_overflow (schedule_sjf fuel ps) well_timed
     \<and> ended (rr_loop time_quantum fuel (rr_init ps)) (\<lambda>s. gantt_ok (gantt s) (current_time s))
     \<and> returned_unless_overflow (schedule_rr fuel ps time_quantum) well_timed
     \<and> ended (np_loop priority_key fuel (np_init ps)) (\<lambda>s. gantt_ok (gantt s) (current_time s))
     \<and> returned_unless_overflow (schedule_priority fuel ps) well_timed"
proof -
  note fc = fcfs_result[OF assms(1)]
  note s = np_result[OF assms(1,3), of sjf_key]
  note p = np_result[OF assms(1,3), of priority_key]
  note r = rr_result[OF assms(1,2,4)]
  have a: "gantt_ok (gantt (snd (fcfs_end ps))) (current_time (snd (fcfs_end ps)))"
    using fc(1) by simp
  have b: "returned_unless_overflow (Some (Inr (schedule_fcfs ps))) well_timed"
    by (rule returned_unless_overflow_weaken[OF fc(2)]) simp
  have c: "ended (np_loop sjf_key fuel (np_init ps)) (\<lambda>s. gantt_ok (gantt s) (current_time s))"
    by (rule ended_weaken[OF s(1)]) simp
  have d: "returned_unless_overflow (schedule_sjf fuel ps) well_timed"
    unfolding schedule_sjf_def by (rule returned_unless_overflow_weaken[OF s(2)]) simp
  have e: "ended (rr_loop time_quantum fuel (rr_init ps)) (\<lambda>s. gantt_ok (gantt s) (current_time s))"
    by (rule ended_weaken[OF r(1)]) simp
  have f: "returned_unless_overflow (schedule_rr fuel ps time_quantum) well_timed"
    by (rule returned_unless_overflow_weaken[OF r(2)]) simp
  have g: "ended (np_loop priority_key fuel (np_init ps)) (\<lambda>s. gantt_ok (gantt s) (current_time s))"
    by (rule ended_weaken[OF p(1)]) simp
  have h: "returned_unless_overflow (schedule_priority fuel ps) well_timed"
    unfolding schedule_priority_def by (rule returned_unless_overflow_weaken[OF p(2)]) simp
  from a b c d e f g h show ?thesis by blast
qed

theorem gantt_contiguous_witness:
  "valid_input [Process ''A'' 0 5 0, Process ''B'' 1 3 0] \<and> (0::int) < 2
   \<and> np_bound [Process ''A'' 0 5 0, Process ''B'' 1 3 0] \<le> 6
   \<and> rr_bound [Process ''A'' 0 5 0, Process ''B'' 1 3 0] 2 \<le> 6
   \<and> gantt_ok (gantt (snd (fcfs_end [Process ''A'' 0 5 0, Process ''B'' 1 3 0]))) (current_time (snd (fcfs_end [Process ''A'' 0 5 0, Process ''B'' 1 3 0])))
   \<and> returned_unless_overflow (Some (Inr (schedule_fcfs [Process ''A'' 0 5 0, Process ''B'' 1 3 0]))) well_timed
   \<and> ended (np_loop sjf_key 6 (np_init [Process ''A'' 0 5 0, Process ''B'' 1 3 0])) (\<lambda>s. gantt_ok (gantt s) (current_time s))
   \<and> returned_unless_overflow (schedule_sjf 6 [Process ''A'' 0 5 0, Process ''B'' 1 3 0]) well_timed
   \<and> ended (rr_loop 2 6 (rr_init [Process ''A'' 0 5 0, Process ''B'' 1 3 0])) (\<lambda>s. gantt_ok (gantt s) (current_time s))
   \<and> returned_unless_overflow (schedule_rr 6 [Process ''A'' 0 5 0, Process ''B'' 1 3 0] 2) well_timed
   \<and> ended (np_loop priority_key 6 (np_init [Process ''A'' 0 5 0, Process ''B'' 1 3 0])) (\<lambda>s. gantt_ok (gantt s) (current_time s))
   \<and> returned_unless_overflow (schedule_priority 6 [Process ''A'' 0 5 0, Process ''B'' 1 3 0]) well_timed
   \<and> returned (Some (Inr (schedule_fcfs [Process ''A'' 0 5 0, Process ''B'' 1 3 0]))) well_timed
   \<and> returned (schedule_sjf 6 [Process ''A'' 0 5 0, Process ''B'' 1 3 0]) well_timed
   \<and> returned (schedule_rr 6 [Process ''A'' 0 5 0, Process ''B'' 1 3 0] 2) well_timed
   \<and> returned (schedule_priority 6 [Process ''A'' 0 5 0, Process ''B'' 1 3 0]) well_timed"
proof -
  have q: "(0::int) < 2" by simp
  note t = gantt_contiguous[OF valid_example(1) q valid_example(2,3)]
  note x = example_returned
  from t x(1) have u: "returned (Some (Inr (schedule_fcfs [Process ''A'' 0 5 0, Process ''B'' 1 3 0]))) well_timed" by (blast intro: returnedI)
  from t x(2) have v: "returned (schedule_sjf 6 [Process ''A'' 0 5 0, Process ''B'' 1 3 0]) well_timed" by (blast intro: returnedI)
  from t x(4) have w: "returned (schedule_rr 6 [Process ''A'' 0 5 0, Process ''B'' 1 3 0] 2) well_timed" by (blast intro: returnedI)
  from t x(3) have y: "returned (schedule_priority 6 [Process ''A'' 0 5 0, Process ''B'' 1 3 0]) well_timed" by (blast intro: returnedI)
  from t u v w y valid_example q show ?thesis by blast
qed

text \<open>
  C6: for every policy and every valid input the loop ends within its bound, and every
  process of its final state satisfies \<open>turnaround_time = finish_time - arrival_time\<close>,
  \<open>waiting_time = turnaround_time - burst_time\<close> and \<open>waiting_time \<ge> 0\<close>. The call then
  returns a result, built from that state, whose processes satisfy the same, unless
  \<open>get_results_dict\<close> raises \<open>OverflowError\<close> at one of its divisions.
\<close>

theorem metrics_equations:
  assumes "valid_input ps" and "0 < time_quantum"
    and "np_bound ps \<le> fuel" and "rr_bound ps time_quantum \<le> fuel"
  shows "list_all metrics_ok (fst (fcfs_end ps))
     \<and> returned_unless_overflow (Some (Inr (schedule_fcfs ps))) metrics_hold
     \<and> ended (np_loop sjf_key fuel (np_init ps)) (\<lambda>s. list_all metrics_ok (processes s))
     \<and> returned_unless_overflow (schedule_sjf fuel ps) metrics_hold
     \<and> ended (rr_loop time_quantum fuel (rr_init ps)) (\<lambda>s. list_all metrics_ok (processes_copy s))
     \<and> returned_unless_overflow (schedule_rr fuel ps time_quantum) metrics_hold
     \<and> ended (np_loop priority_key fuel (np_init ps)) (\<lambda>s. list_all metrics_ok (processes s))
     \<and> returned_unless_overflow (schedule_priority fuel ps) metrics_hold"
proof -
  note fc = fcfs_result[OF assms(1)]
  note s = np_result[OF assms(1,3), of sjf_key]
  note p = np_result[OF assms(1,3), of priority_key]
  note r = rr_result[OF assms(1,2,4)]
  have a: "list_all metrics_ok (fst (fcfs_end ps))"
    using fc(1) by simp
  have b: "returned_unless_overflow (Some (Inr (schedule_fcfs ps))) metrics_hold"
    by (rule returned_unless_overflow_weaken[OF fc(2)]) simp
  have c: "ended (np_loop sjf_key fuel (np_init ps)) (\<lambda>s. list_all metrics_ok (processes s))"
    by (rule ended_weaken[OF s(1)]) simp
  have d: "returned_unless_overflow (schedule_sjf fuel ps) metrics_hold"
    unfolding schedule_sjf_def by (rule returned_unless_overflow_weaken[OF s(2)]) simp
  have e: "ended (rr_loop time_quantum fuel (rr_init ps)) (\<lambda>s. list_all metrics_ok (processes_copy s))"
    by (rule ended_weaken[OF r(1)]) simp
  have f: "returned_unless_overflow (schedule_rr fuel ps time_quantum) metrics_hold"
    by (rule returned_unless_overflow_weaken[OF r(2)]) simp
  have g: "ended (np_loop priority_key fuel (np_init ps)) (\<lambda>s. list_all metrics_ok (processes s))"
    by (rule ended_weaken[OF p(1)]) simp
  have h: "returned_unless_overflow (schedule_priority fuel ps) metrics_hold"
    unfolding schedule_priority_def by (rule returned_unless_overflow_weaken[OF p(2)]) simp
  from a b c d e f g h show ?thesis by blast
qed

theorem metrics_equations_witness:
  "valid_input [Process ''A'' 0 5 0, Process ''B'' 1 3 0] \<and> (0::int) < 2
   \<and> np_bound [Process ''A'' 0 5 0, Process ''B'' 1 3 0] \<le> 6
   \<and> rr_bound [Process ''A'' 0 5 0, Process ''B'' 1 3 0] 2 \<le> 6
   \<and> list_all metrics_ok (fst (fcfs_end [Process ''A'' 0 5 0, Process ''B'' 1 3 0]))
   \<and> returned_unless_overflow (Some (Inr (schedule_fcfs [Process ''A'' 0 5 0, Process ''B'' 1 3 0]))) metrics_hold
   \<and> ended (np_loop sjf_key 6 (np_init [Process ''A'' 0 5 0, Process ''B'' 1 3 0])) (\<lambda>s. list_all metrics_ok (processes s))
   \<and> returned_unless_overflow (schedule_sjf 6 [Process ''A'' 0 5 0, Process ''B'' 1 3 0]) metrics_hold
   \<and> ended (rr_loop 2 6 (rr_init [Process ''A'' 0 5 0, Process ''B'' 1 3 0])) (\<lambda>s. list_all metrics_ok (processes_copy s))
   \<and> returned_unless_overflow (schedule_rr 6 [Process ''A'' 0 5 0, Process ''B'' 1 3 0] 2) metrics_hold
   \<and> ended (np_loop priority_key 6 (np_init [Process ''A'' 0 5 0, Process ''B'' 1 3 0])) (\<lambda>s. list_all metrics_ok (processes s))
   \<and> returned_unless_overflow (schedule_priority 6 [Process ''A'' 0 5 0, Process ''B'' 1 3 0]) metrics_hold
   \<and> returned (Some (Inr (schedule_fcfs [Process ''A'' 0 5 0, Process ''B'' 1 3 0]))) metrics_hold
   \<and> returned (schedule_sjf 6 [Process ''A'' 0 5 0, Process ''B'' 1 3 0]) metrics_hold
   \<and> returned (schedule_rr 6 [Process ''A'' 0 5 0, Process ''B'' 1 3 0] 2) metrics_hold
   \<and> returned (schedule_priority 6 [Process ''A'' 0 5 0, Process ''B'' 1 3 0]) metrics_hold"
proof -
  have q: "(0::int) < 2" by simp
  note t = metrics_equations[OF valid_example(1) q valid_example(2,3)]
  note x = example_returned
  from t x(1) have u: "returned (Some (Inr (schedule_fcfs [Process ''A'' 0 5 0, Process ''B'' 1 3 0]))) metrics_hold" by (blast intro: returnedI)
  from t x(2) have v: "returned (schedule_sjf 6 [Process ''A'' 0 5 0, Process ''B'' 1 3 0]) metrics_hold" by (blast intro: returnedI)
  from t x(4) have w: "returned (schedule_rr 6 [Process ''A'' 0 5 0, Process ''B'' 1 3 0] 2) metrics_hold" by (blast intro: returnedI)
  from t x(3) have y: "returned (schedule_priority 6 [Process ''A'' 0 5 0, Process ''B'' 1 3 0]) metrics_hold" by (blast intro: returnedI)
  from t u v w y valid_example q show ?thesis by blast
qed

text \<open>
  C7: for every policy and every valid input the loop ends within its bound, each input
  process appears exactly once among the processes of its final state, and the sum of
  the bursts plus the idle time is the final time. The call then returns a result, built
  from that state, of whose processes, \<open>total_idle_time\<close> and \<open>total_time\<close> the same
  holds, unless \<open>get_results_dict\<close> raises \<open>OverflowError\<close> at one of its divisions.
\<close>

theorem processes_accounted:
  assumes "valid_input ps" and "0 < time_quantum"
    and "np_bound ps \<le> fuel" and "rr_bound ps time_quantum \<le> fuel"
  shows "accounted_for ps (fst (fcfs_end ps)) (current_time (snd (fcfs_end ps)))
          (total_idle_time (snd (fcfs_end ps)))
     \<and> returned_unless_overflow (Some (Inr (schedule_fcfs ps))) (accounted ps)
     \<and> ended (np_loop sjf_key fuel (np_init ps)) (\<lambda>s. accounted_for ps (processes s) (current_time s) (total_idle_time s))
     \<and> returned_unless_overflow (schedule_sjf fuel ps) (accounted ps)
     \<and> ended (rr_loop time_quantum fuel (rr_init ps)) (\<lambda>s. accounted_for ps (processes_copy s) (current_time s) (total_idle_time s))
     \<and> returned_unless_overflow (schedule_rr fuel ps time_quantum) (accounted ps)
     \<and> ended (np_loop priority_key fuel (np_init ps)) (\<lambda>s. accounted_for ps (processes s) (current_time s) (total_idle_time s))
     \<and> returned_unless_overflow (schedule_priority fuel ps) (accounted ps)"
proof -
  note fc = fcfs_result[OF assms(1)]
  note s = np_result[OF assms(1,3), of sjf_key]
  note p = np_result[OF assms(1,3), of priority_key]
  note r = rr_result[OF assms(1,2,4)]
  have a: "accounted_for ps (fst (fcfs_end ps)) (current_time (snd (fcfs_end ps)))
          (total_idle_time (snd (fcfs_end ps)))"
    using fc(1) by simp
  have b: "returned_unless_overflow (Some (Inr (schedule_fcfs ps))) (accounted ps)"
    by (rule returned_unless_overflow_weaken[OF fc(2)]) simp
  have c: "ended (np_loop sjf_key fuel (np_init ps)) (\<lambda>s. accounted_for ps (processes s) (current_time s) (total_idle_time s))"
    by (rule ended_weaken[OF s(1)]) simp
  have d: "returned_unless_overflow (schedule_sjf fuel ps) (accounted ps)"
    unfolding schedule_sjf_def by (rule returned_unless_overflow_weaken[OF s(2)]) simp
  have e: "ended (rr_loop time_quantum fuel (rr_init ps)) (\<lambda>s. accounted_for ps (processes_copy s) (current_time s) (total_idle_time s))"
    by (rule ended_weaken[OF r(1)]) simp
  have f: "returned_unless_overflow (schedule_rr fuel ps time_quantum) (accounted ps)"
    by (rule returned_unless_overflow_weaken[OF r(2)]) simp
  have g: "ended (np_loop priority_key fuel (np_init ps)) (\<lambda>s. accounted_for ps (processes s) (current_time s) (total_idle_time s))"
    by (rule ended_weaken[OF p(1)]) simp
  have h: "returned_unless_overflow (schedule_priority fuel ps) (accounted ps)"
    unfolding schedule_priority_def by (rule returned_unless_overflow_weaken[OF p(2)]) simp
  from a b c d e f g h show ?thesis by blast
qed

theorem processes_accounted_witness:
  "valid_input [Process ''A'' 0 5 0, Process ''B'' 1 3 0] \<and> (0::int) < 2
   \<and> np_bound [Process ''A'' 0 5 0, Process ''B'' 1 3 0] \<le> 6
   \<and> rr_bound [Process ''A'' 0 5 0, Process ''B'' 1 3 0] 2 \<le> 6
   \<and> accounted_for [Process ''A'' 0 5 0, Process ''B'' 1 3 0] (fst (fcfs_end [Process ''A'' 0 5 0, Process ''B'' 1 3 0])) (current_time (snd (fcfs_end [Process ''A'' 0 5 0, Process ''B'' 1 3 0])))
          (total_idle_time (snd (fcfs_end [Process ''A'' 0 5 0, Process ''B'' 1 3 0])))
   \<and> returned_unless_overflow (Some (Inr (schedule_fcfs [Process ''A'' 0 5 0, Process ''B'' 1 3 0]))) (accounted [Process ''A'' 0 5 0, Process ''B'' 1 3 0])
   \<and> ended (np_loop sjf_key 6 (np_init [Process ''A'' 0 5 0, Process ''B'' 1 3 0])) (\<lambda>s. accounted_for [Process ''A'' 0 5 0, Process ''B'' 1 3 0] (processes s) (current_time s) (total_idle_time s))
   \<and> returned_unless_overflow (schedule_sjf 6 [Process ''A'' 0 5 0, Process ''B'' 1 3 0]) (accounted [Process ''A'' 0 5 0, Process ''B'' 1 3 0])
   \<and> ended (rr_loop 2 6 (rr_init [Process ''A'' 0 5 0, Process ''B'' 1 3 0])) (\<lambda>s. accounted_for [Process ''A'' 0 5 0, Process ''B'' 1 3 0] (processes_copy s) (current_time s) (total_idle_time s))
   \<and> returned_unless_overflow (schedule_rr 6 [Process ''A'' 0 5 0, Process ''B'' 1 3 0] 2) (accounted [Process ''A'' 0 5 0, Process ''B'' 1 3 0])
   \<and> ended (np_loop priority_key 6 (np_init [Process ''A'' 0 5 0, Process ''B'' 1 3 0])) (\<lambda>s. accounted_for [Process ''A'' 0 5 0, Process ''B'' 1 3 0] (processes s) (current_time s) (total_idle_time s))
   \<and> returned_unless_overflow (schedule_priority 6 [Process ''A'' 0 5 0, Process ''B'' 1 3 0]) (accounted [Process ''A'' 0 5 0, Process ''B'' 1 3 0])
   \<and> returned (Some (Inr (schedule_fcfs [Process ''A'' 0 5 0, Process ''B'' 1 3 0]))) (accounted [Process ''A'' 0 5 0, Process ''B'' 1 3 0])
   \<and> returned (schedule_sjf 6 [Process ''A'' 0 5 0, Process ''B'' 1 3 0]) (accounted [Process ''A'' 0 5 0, Process ''B'' 1 3 0])
   \<and> returned (schedule_rr 6 [Process ''A'' 0 5 0, Process ''B'' 1 3 0] 2) (accounted [Process ''A'' 0 5 0, Process ''B'' 1 3 0])
   \<and> returned (schedule_priority 6 [Process ''A'' 0 5 0, Process ''B'' 1 3 0]) (accounted [Process ''A'' 0 5 0, Process ''B'' 1 3 0])"
proof -
  have q: "(0::int) < 2" by simp
  note t = processes_accounted[OF valid_example(1) q valid_example(2,3)]
  note x = example_returned
  from t x(1) have u: "returned (Some (Inr (schedule_fcfs [Process ''A'' 0 5 0, Process ''B'' 1 3 0]))) (accounted [Process ''A'' 0 5 0, Process ''B'' 1 3 0])" by (blast intro: returnedI)
  from t x(2) have v: "returned (schedule_sjf 6 [Process ''A'' 0 5 0, Process ''B'' 1 3 0]) (accounted [Process ''A'' 0 5 0, Process ''B'' 1 3 0])" by (blast intro: returnedI)
  from t x(4) have w: "returned (schedule_rr 6 [Process ''A'' 0 5 0, Process ''B'' 1 3 0] 2) (accounted [Process ''A'' 0 5 0, Process ''B'' 1 3 0])" by (blast intro: returnedI)
  from t x(3) have y: "returned (schedule_priority 6 [Process ''A'' 0 5 0, Process ''B'' 1 3 0]) (accounted [Process ''A'' 0 5 0, Process ''B'' 1 3 0])" by (blast intro: returnedI)
  from t u v w y valid_example q show ?thesis by blast
qed

text \<open>
  C8: in every pass of the loop of \<open>schedule_rr\<close> in which the process that ran (the
  head \<open>current\<close> of the queue after the idle branch) still has time remaining when its
  quantum ends at time \<open>t\<close>, the new queue is the rest of the old one, then every
  process not yet enqueued whose arrival is at most \<open>t\<close>, in the order of the
  arrival-sorted copy, and only then \<open>current\<close>. This holds for every input and every
  quantum, so for every positive one.
\<close>

theorem rr_arrivals_before_preempted:
  assumes "rr_reach time_quantum ps s"
    and "completed_count s < length (processes_copy s)"
    and "rr_idle s = Inr s1" and "ready_queue s1 = current # rest"
    and "rr_body time_quantum s = Inr s'"
    and "0 < remaining_time (processes_copy s' ! current)"
  shows "ready_queue s' =
           rest @ filter (\<lambda>j. arrival_time (processes_copy s1 ! j) \<le> current_time s')
                    [process_index s1..<length (processes_copy s1)] @ [current]"
proof -
  note inv = rr_reach_queue_inv[OF assms(1)]
  from rr_idle_ok[OF inv assms(2)] assms(3) have inv1: "rr_queue_inv s1"
    and pc1: "processes_copy s1 = processes_copy s"
    by (auto simp: rr_idled_fields)
  let ?pcs = "processes_copy s1" and ?i = "process_index s1"
  define e where "e = execute_time time_quantum s1"
  define p where "p = ?pcs ! current"
  from assms(3,5) have run: "rr_run time_quantum s1 = Inr s'" by (simp add: rr_body_def)
  from rr_queue_invD(1,3)[OF inv1] assms(4) have cn: "current < length ?pcs" by simp
  from rr_run_char[OF inv1 assms(4), of time_quantum] run obtain k where k:
    "?i \<le> k" "k \<le> length ?pcs" "current_time s' = current_time s1 + e"
    and a1: "\<And>j. ?i \<le> j \<Longrightarrow> j < k \<Longrightarrow> arrival_time (?pcs ! j) \<le> current_time s1 + e"
    and a2: "k < length ?pcs \<Longrightarrow> current_time s1 + e < arrival_time (?pcs ! k)"
    and br: "if 0 < remaining_time p - e
          then ready_queue s' = rest @ [?i..<k] @ [current]
             \<and> processes_copy s' = ?pcs[current := p\<lparr>remaining_time := remaining_time p - e\<rparr>]
          else processes_copy s' = ?pcs[current := p\<lparr>remaining_time := remaining_time p - e,
                    finish_time := current_time s1 + e,
                    turnaround_time := current_time s1 + e - arrival_time p,
                    waiting_time := current_time s1 + e - arrival_time p - burst_time p\<rparr>]"
    unfolding e_def p_def by (auto split: if_splits)
  have "remaining_time (processes_copy s' ! current) = remaining_time p - e"
    using br cn by (simp split: if_splits)
  with assms(6) br have q': "ready_queue s' = rest @ [?i..<k] @ [current]" by simp
  have srt: "sorted (map arrival_time ?pcs)"
    using rr_reach_sorted[OF assms(1)] pc1 by (simp add: sorted_copy_props)
  have late: "\<not> arrival_time (?pcs ! j) \<le> current_time s'" if "k \<le> j" "j < length ?pcs" for j
  proof -
    from that have "k < length ?pcs" by simp
    moreover have "arrival_time (?pcs ! k) \<le> arrival_time (?pcs ! j)"
      using srt that by (simp add: sorted_iff_nth_mono)
    ultimately show ?thesis using a2 k(3) by simp
  qed
  have "filter (\<lambda>j. arrival_time (?pcs ! j) \<le> current_time s') [?i..<length ?pcs] = [?i..<k]"
    using k(1,2) a1 late by (intro filter_upt_prefix) (simp_all add: k(3))
  with q' show ?thesis by simp
qed

theorem rr_arrivals_before_preempted_witness:
  "rr_reach 2 [Process ''A'' 0 5 0, Process ''B'' 1 3 0]
      (rr_init [Process ''A'' 0 5 0, Process ''B'' 1 3 0])
   \<and> rr_idle (rr_init [Process ''A'' 0 5 0, Process ''B'' 1 3 0])
        = Inr (rr_init [Process ''A'' 0 5 0, Process ''B'' 1 3 0])
   \<and> ready_queue (rr_init [Process ''A'' 0 5 0, Process ''B'' 1 3 0]) = [0]
   \<and> completed_count (rr_init [Process ''A'' 0 5 0, Process ''B'' 1 3 0])
        < length (processes_copy (rr_init [Process ''A'' 0 5 0, Process ''B'' 1 3 0]))
   \<and> 0 < remaining_time ([(Process ''A'' 0 5 0)\<lparr>remaining_time := 3\<rparr>, Process ''B'' 1 3 0] ! 0)
   \<and> rr_body 2 (rr_init [Process ''A'' 0 5 0, Process ''B'' 1 3 0])
        = Inr \<lparr>gantt = [GanttEntry ''A'' 0 2], current_time = 2, total_idle_time = 0,
               processes_copy = [(Process ''A'' 0 5 0)\<lparr>remaining_time := 3\<rparr>, Process ''B'' 1 3 0],
               ready_queue = [1, 0], completed_count = 0, process_index = 2\<rparr>
   \<and> ready_queue \<lparr>gantt = [GanttEntry ''A'' 0 2], current_time = 2, total_idle_time = 0,
               processes_copy = [(Process ''A'' 0 5 0)\<lparr>remaining_time := 3\<rparr>, Process ''B'' 1 3 0],
               ready_queue = [1, 0], completed_count = 0, process_index = 2\<rparr>
       = [] @ filter (\<lambda>j. arrival_time (processes_copy
                 (rr_init [Process ''A'' 0 5 0, Process ''B'' 1 3 0]) ! j) \<le> 2) [1..<2] @ [0]"
proof -
  let ?ps = "[Process ''A'' 0 5 0, Process ''B'' 1 3 0]"
  let ?s' = "\<lparr>gantt = [GanttEntry ''A'' 0 2], current_time = 2, total_idle_time = 0,
               processes_copy = [(Process ''A'' 0 5 0)\<lparr>remaining_time := 3\<rparr>, Process ''B'' 1 3 0],
               ready_queue = [1, 0], completed_count = 0, process_index = 2\<rparr>"
  have r: "rr_reach 2 ?ps (rr_init ?ps)" by (rule rr_start)
  have g: "completed_count (rr_init ?ps) < length (processes_copy (rr_init ?ps))"
    by (simp add: rr_init_def Process_def copy_def Let_def)
  have i: "rr_idle (rr_init ?ps) = Inr (rr_init ?ps)"
    by (simp add: rr_idle_def rr_init_def Process_def copy_def Let_def)
  have q: "ready_queue (rr_init ?ps) = 0 # []"
    by (simp add: rr_init_def Process_def copy_def Let_def)
  have b: "rr_body 2 (rr_init ?ps) = Inr ?s'"
    by (simp add: rr_body_def rr_idle_def rr_run_def rr_init_def admit.simps
        Process_def copy_def GanttEntry_def Let_def)
  have m: "0 < remaining_time (processes_copy ?s' ! 0)" by (simp add: Process_def)
  have n: "process_index (rr_init ?ps) = 1" "length (processes_copy (rr_init ?ps)) = 2"
    "current_time ?s' = 2"
    by (simp_all add: rr_init_def Process_def copy_def Let_def)
  from rr_arrivals_before_preempted[OF r g i q b m] r g i q b m show ?thesis
    by (simp add: n)
qed

text \<open>
  C9: on every valid input the loop of \<open>schedule_fcfs\<close> makes one pass per process
  (and appends at most two Gantt entries in each), the loops of \<open>schedule_sjf\<close> and
  \<open>schedule_priority\<close> end within \<open>2 * n\<close> passes with every process completed, and
  for every positive quantum the loop of \<open>schedule_rr\<close> ends within \<open>n\<close> plus the
  total burst time divided by the quantum passes with every process completed, \<open>n\<close>
  being the number of processes. Each call then returns its result, unless
  \<open>get_results_dict\<close> raises \<open>OverflowError\<close> at one of its divisions.
\<close>

theorem policies_terminate:
  assumes "valid_input ps" and "0 < time_quantum"
    and "2 * length ps \<le> fuel"
    and "length ps + nat (sum_list (map burst_time ps) div time_quantum) \<le> fuel"
  shows "length (fst (fcfs_end ps)) = length ps
     \<and> length (gantt (snd (fcfs_end ps))) \<le> 2 * length ps
     \<and> fst (schedule_fcfs ps) = fst (fcfs_end ps)
     \<and> returned_unless_overflow (Some (Inr (schedule_fcfs ps))) (\<lambda>r. True)
     \<and> ended (np_loop sjf_key fuel (np_init ps)) (\<lambda>s. length (completed s) = length ps)
     \<and> returned_unless_overflow (schedule_sjf fuel ps) (\<lambda>r. True)
     \<and> ended (rr_loop time_quantum fuel (rr_init ps)) (\<lambda>s. completed_count s = length ps)
     \<and> returned_unless_overflow (schedule_rr fuel ps time_quantum) (\<lambda>r. True)
     \<and> ended (np_loop priority_key fuel (np_init ps)) (\<lambda>s. length (completed s) = length ps)
     \<and> returned_unless_overflow (schedule_priority fuel ps) (\<lambda>r. True)"
proof -
  from assms(3) have nb: "np_bound ps \<le> fuel" by (simp add: np_bound_def)
  from assms(4) have rb: "rr_bound ps time_quantum \<le> fuel" by (simp add: rr_bound_def)
  note fc = fcfs_result[OF assms(1)]
  note s = np_result[OF assms(1) nb, of sjf_key]
  note p = np_result[OF assms(1) nb, of priority_key]
  note r = rr_result[OF assms(1,2) rb]
  have a: "length (fst (fcfs_end ps)) = length ps \<and> length (gantt (snd (fcfs_end ps))) \<le> 2 * length ps
      \<and> fst (schedule_fcfs ps) = fst (fcfs_end ps)"
    by (rule schedule_fcfs_passes)
  have b: "returned_unless_overflow (Some (Inr (schedule_fcfs ps))) (\<lambda>r. True)"
    by (rule returned_unless_overflow_weaken[OF fc(2)]) simp
  have c: "ended (np_loop sjf_key fuel (np_init ps)) (\<lambda>s. length (completed s) = length ps)"
    by (rule ended_weaken[OF s(1)]) simp
  have d: "returned_unless_overflow (schedule_sjf fuel ps) (\<lambda>r. True)"
    unfolding schedule_sjf_def by (rule returned_unless_overflow_weaken[OF s(2)]) simp
  have e: "ended (rr_loop time_quantum fuel (rr_init ps)) (\<lambda>s. completed_count s = length ps)"
    by (rule ended_weaken[OF r(1)]) simp
  have g: "returned_unless_overflow (schedule_rr fuel ps time_quantum) (\<lambda>r. True)"
    by (rule returned_unless_overflow_weaken[OF r(2)]) simp
  have h: "ended (np_loop priority_key fuel (np_init ps)) (\<lambda>s. length (completed s) = length ps)"
    by (rule ended_weaken[OF p(1)]) simp
  have i: "returned_unless_overflow (schedule_priority fuel ps) (\<lambda>r. True)"
    unfolding schedule_priority_def by (rule returned_unless_overflow_weaken[OF p(2)]) simp
  from a b c d e g h i show ?thesis by blast
qed

theorem policies_terminate_witness:
  "valid_input [Process ''A'' 0 5 0, Process ''B'' 1 3 0] \<and> (0::int) < 2
   \<and> 2 * length [Process ''A'' 0 5 0, Process ''B'' 1 3 0] \<le> (6::nat)
   \<and> length [Process ''A'' 0 5 0, Process ''B'' 1 3 0]
       + nat (sum_list (map burst_time [Process ''A'' 0 5 0, Process ''B'' 1 3 0]) div 2) \<le> 6
   \<and> length (fst (fcfs_end [Process ''A'' 0 5 0, Process ''B'' 1 3 0])) = length [Process ''A'' 0 5 0, Process ''B'' 1 3 0]
   \<and> length (gantt (snd (fcfs_end [Process ''A'' 0 5 0, Process ''B'' 1 3 0]))) \<le> 2 * length [Process ''A'' 0 5 0, Process ''B'' 1 3 0]
   \<and> fst (schedule_fcfs [Process ''A'' 0 5 0, Process ''B'' 1 3 0]) = fst (fcfs_end [Process ''A'' 0 5 0, Process ''B'' 1 3 0])
   \<and> returned_unless_overflow (Some (Inr (schedule_fcfs [Process ''A'' 0 5 0, Process ''B'' 1 3 0]))) (\<lambda>r. True)
   \<and> ended (np_loop sjf_key 6 (np_init [Process ''A'' 0 5 0, Process ''B'' 1 3 0])) (\<lambda>s. length (completed s) = length [Process ''A'' 0 5 0, Process ''B'' 1 3 0])
   \<and> returned_unless_overflow (schedule_sjf 6 [Process ''A'' 0 5 0, Process ''B'' 1 3 0]) (\<lambda>r. True)
   \<and> ended (rr_loop 2 6 (rr_init [Process ''A'' 0 5 0, Process ''B'' 1 3 0])) (\<lambda>s. completed_count s = length [Process ''A'' 0 5 0, Process ''B'' 1 3 0])
   \<and> returned_unless_overflow (schedule_rr 6 [Process ''A'' 0 5 0, Process ''B'' 1 3 0] 2) (\<lambda>r. True)
   \<and> ended (np_loop priority_key 6 (np_init [Process ''A'' 0 5 0, Process ''B'' 1 3 0])) (\<lambda>s. length (completed s) = length [Process ''A'' 0 5 0, Process ''B'' 1 3 0])
   \<and> returned_unless_overflow (schedule_priority 6 [Process ''A'' 0 5 0, Process ''B'' 1 3 0]) (\<lambda>r. True)"
proof -
  have q: "(0::int) < 2" by simp
  have a: "2 * length [Process ''A'' 0 5 0, Process ''B'' 1 3 0] \<le> (6::nat)" by simp
  have b: "length [Process ''A'' 0 5 0, Process ''B'' 1 3 0]
       + nat (sum_list (map burst_time [Process ''A'' 0 5 0, Process ''B'' 1 3 0]) div 2) \<le> 6"
    by (simp add: Process_def)
  from policies_terminate[OF valid_example(1) q a b] valid_example(1) q a b
  show ?thesis by blast
qed

text \<open>
  C10: in every state at the head of the loop of \<open>schedule_rr\<close>, a process with time
  remaining is in the ready queue or not yet enqueued (at an index from
  \<open>process_index\<close> on), and the processes counted in \<open>completed\<close> are exactly those
  enqueued earlier and no longer in the queue. Hence, when the queue is empty and
  \<open>completed\<close> is less than the number of processes, \<open>process_index\<close> is a valid index:
  the pass runs without an \<open>IndexError\<close>, and no call of \<open>schedule_rr\<close> ends with one.
  This holds for every input and every quantum, so for every positive one.
\<close>

theorem rr_index_in_range:
  assumes "rr_reach time_quantum ps s"
  shows "(\<forall>i<length (processes_copy s). remaining_time (processes_copy s ! i) \<noteq> 0
            \<longrightarrow> i \<in> set (ready_queue s) \<or> process_index s \<le> i)
     \<and> completed_count s = card {i. i < process_index s \<and> i \<notin> set (ready_queue s)}
     \<and> (ready_queue s = [] \<and> completed_count s < length (processes_copy s)
            \<longrightarrow> process_index s < length (processes_copy s))
     \<and> (completed_count s < length (processes_copy s)
            \<longrightarrow> (\<exists>s'. rr_body time_quantum s = Inr s'))
     \<and> schedule_rr fuel ps time_quantum \<noteq> Some (Inl IndexError)"
proof -
  note inv = rr_reach_queue_inv[OF assms]
  note d = rr_queue_invD[OF inv]
  have 1: "\<forall>i<length (processes_copy s). remaining_time (processes_copy s ! i) \<noteq> 0
            \<longrightarrow> i \<in> set (ready_queue s) \<or> process_index s \<le> i"
    using d(5) by (metis not_le)
  have 2: "completed_count s = card {i. i < process_index s \<and> i \<notin> set (ready_queue s)}"
    using card_outside_queue[OF d(2,3)] d(4) by simp
  have 3: "ready_queue s = [] \<and> completed_count s < length (processes_copy s)
            \<longrightarrow> process_index s < length (processes_copy s)"
    using d(4) by auto
  have 4: "completed_count s < length (processes_copy s)
            \<longrightarrow> (\<exists>s'. rr_body time_quantum s = Inr s')"
    using rr_queue_inv_body[OF inv, of time_quantum] by blast
  have "rr_loop time_quantum fuel (rr_init ps) \<noteq> Some (Inl IndexError)"
    by (rule rr_loop_no_error[OF rr_queue_inv_init])
  then have 5: "schedule_rr fuel ps time_quantum \<noteq> Some (Inl IndexError)"
    by (cases "rr_loop time_quantum fuel (rr_init ps)")
       (auto simp: schedule_rr_def map_sum_def split: sum.splits)
  from 1 2 3 4 5 show ?thesis by blast
qed


theorem rr_index_in_range_witness:
  "rr_reach 2 [Process ''A'' 3 2 0] (rr_init [Process ''A'' 3 2 0])
   \<and> ready_queue (rr_init [Process ''A'' 3 2 0]) = []
   \<and> completed_count (rr_init [Process ''A'' 3 2 0]) = 0
   \<and> process_index (rr_init [Process ''A'' 3 2 0])
        < length (processes_copy (rr_init [Process ''A'' 3 2 0]))
   \<and> (\<exists>s'. rr_body 2 (rr_init [Process ''A'' 3 2 0]) = Inr s')"
proof -
  have r: "rr_reach 2 [Process ''A'' 3 2 0] (rr_init [Process ''A'' 3 2 0])" by (rule rr_start)
  have i: "ready_queue (rr_init [Process ''A'' 3 2 0]) = []"
    "completed_count (rr_init [Process ''A'' 3 2 0]) = 0"
    "length (processes_copy (rr_init [Process ''A'' 3 2 0])) = 1"
    by (simp_all add: rr_init_def Process_def copy_def Let_def)
  from rr_index_in_range[OF r] r i show ?thesis by simp
qed

end
